theory Spec2Isabelle
  imports Main
begin

section \<open>CSV import of customer records (app.py)\<close>

text \<open>
  The development embeds \<^verbatim>\<open>import_csv_stream\<close> of \<^verbatim>\<open>app.py\<close> together with the
  pieces of the Python runtime it calls (\<^verbatim>\<open>str.strip\<close>, \<^verbatim>\<open>str.lower\<close>, \<^verbatim>\<open>int\<close>,
  \<^verbatim>\<open>re.match\<close> on \<^verbatim>\<open>EMAIL_RE\<close>, \<^verbatim>\<open>csv.DictReader\<close>, the \<^verbatim>\<open>customers\<close> table of
  SQLite and \<^verbatim>\<open>datetime.isoformat\<close>).

  Scope of the runtime model.
  \<^item> A Python \<^verbatim>\<open>str\<close> is a list of Unicode code points (\<open>nat\<close>), so \<open>length\<close> is
    Python's \<^verbatim>\<open>len\<close> and U+FEFF is one character.
  \<^item> \<open>isspace\<close> is the full whitespace table of CPython.
  \<^item> \<open>lower\<close> is \<^verbatim>\<open>str.lower\<close> the way CPython computes it: one code point after the
    other, with the rule for a capital sigma. \<open>py_int\<close> is \<^verbatim>\<open>int\<close> on a \<^verbatim>\<open>str\<close>: it
    reads every decimal digit of Unicode and obeys the interpreter's limit on the number
    of digits. The case mappings are written out for U+0000..U+00FF and for U+FEFF (which
    has none), the digits for U+0000..U+007F. Everything else of the interpreter's Unicode
    database is an input of the model: the tables \<open>to_lower_full\<close>, \<open>is_cased\<close>,
    \<open>is_case_ignorable\<close> and \<open>to_decimal\<close> of the environment, as is the limit
    \<open>int_max_str_digits\<close> (\<open>0\<close> for no limit). The properties hold for every value of
    these inputs.
  \<^item> The input of the model is the list of records that \<^verbatim>\<open>csv.reader\<close> yields for the
    character stream (the first one is the header; a blank line is the empty record
    \<open>[]\<close>). Tokenising the stream is the standard library's work; a stream that fails
    to decode or to tokenise is outside the model.
  \<^item> The clock and hard storage faults are inputs: \<open>utcnow env i\<close> is the time read
    while row \<open>i\<close> is inserted, \<open>store_fault env i\<close> says that the \<^verbatim>\<open>INSERT\<close> of row
    \<open>i\<close> raises an \<^verbatim>\<open>sqlite3\<close> error other than \<^verbatim>\<open>IntegrityError\<close>.
\<close>

subsection \<open>The environment of a call\<close>

type_synonym pystr = "nat list"

record datetime =
  dt_year :: nat
  dt_month :: nat
  dt_day :: nat
  dt_hour :: nat
  dt_minute :: nat
  dt_second :: nat
  dt_microsecond :: nat

record env =
  utcnow :: "nat \<Rightarrow> datetime"
  store_fault :: "nat \<Rightarrow> bool"
  to_lower_full :: "nat \<Rightarrow> pystr"
  is_cased :: "nat \<Rightarrow> bool"
  is_case_ignorable :: "nat \<Rightarrow> bool"
  to_decimal :: "nat \<Rightarrow> nat option"
  int_max_str_digits :: nat

text \<open>
  \<open>to_lower_full e c\<close> is the full lower-case mapping of the code point \<open>c\<close> (one to three
  code points), \<open>is_cased\<close> and \<open>is_case_ignorable\<close> are the properties \<^verbatim>\<open>Cased\<close> and
  \<^verbatim>\<open>Case_Ignorable\<close>, \<open>to_decimal e c\<close> is the value of \<open>c\<close> as a decimal digit
  (\<open>None\<close> when it is none), and \<open>int_max_str_digits\<close> is
  \<^verbatim>\<open>sys.get_int_max_str_digits()\<close>.
\<close>

subsection \<open>Python strings\<close>

definition u :: "string \<Rightarrow> pystr" where
  \<comment> \<open>an ASCII literal of the source as a list of code points\<close>
  "u s = map of_char s"

definition isspace :: "nat \<Rightarrow> bool" where
  \<comment> \<open>\<^verbatim>\<open>str.isspace\<close> of one character, also the class \<^verbatim>\<open>\s\<close> of \<^verbatim>\<open>re\<close> on \<^verbatim>\<open>str\<close>\<close>
  "isspace c \<longleftrightarrow>
     (9 \<le> c \<and> c \<le> 13) \<or> (28 \<le> c \<and> c \<le> 32) \<or> c = 133 \<or> c = 160 \<or> c = 5760 \<or>
     (8192 \<le> c \<and> c \<le> 8202) \<or> c = 8232 \<or> c = 8233 \<or> c = 8239 \<or> c = 8287 \<or> c = 12288"

definition strip :: "pystr \<Rightarrow> pystr" where
  \<comment> \<open>\<^verbatim>\<open>s.strip()\<close>: leading and trailing whitespace removed\<close>
  "strip s = rev (dropWhile isspace (rev (dropWhile isspace s)))"

definition lower_cp :: "nat \<Rightarrow> nat" where
  \<comment> \<open>the lower-case mapping of a code point below U+0100\<close>
  "lower_cp c =
     (if (65 \<le> c \<and> c \<le> 90) \<or> (192 \<le> c \<and> c \<le> 222 \<and> c \<noteq> 215) then c + 32 else c)"

definition lower_full :: "env \<Rightarrow> nat \<Rightarrow> pystr" where
  \<comment> \<open>the full lower-case mapping of a code point\<close>
  "lower_full e c =
     (if c < 256 then [lower_cp c] else if c = 65279 then [c] else to_lower_full e c)"

definition handle_capital_sigma :: "env \<Rightarrow> pystr \<Rightarrow> pystr \<Rightarrow> nat" where
  \<comment> \<open>the lower case of U+03A3 between \<open>before\<close> (the characters to its left, the nearest
      one first) and \<open>after\<close>: U+03C2 when a cased character stands before it and none
      after it, case-ignorable characters passed over, and U+03C3 otherwise\<close>
  "handle_capital_sigma e before after =
     (let final_sigma =
            (case dropWhile (is_case_ignorable e) before of
               [] \<Rightarrow> False
             | c # _ \<Rightarrow>
                 is_cased e c \<and>
                 (case dropWhile (is_case_ignorable e) after of
                    [] \<Rightarrow> True
                  | d # _ \<Rightarrow> \<not> is_cased e d))
      in if final_sigma then 962 else 963)"

fun do_lower :: "env \<Rightarrow> pystr \<Rightarrow> pystr \<Rightarrow> pystr" where
  \<comment> \<open>the loop over the characters; \<open>before\<close> holds the characters done, the last one
      first\<close>
  "do_lower e before [] = []"
| "do_lower e before (c # after) =
     (if c = 931 then [handle_capital_sigma e before after] else lower_full e c) @
     do_lower e (c # before) after"

definition lower :: "env \<Rightarrow> pystr \<Rightarrow> pystr" where
  \<comment> \<open>\<^verbatim>\<open>s.lower()\<close>\<close>
  "lower e s = do_lower e [] s"

subsection \<open>\<^verbatim>\<open>int(s)\<close> in base 10\<close>

definition isdigit :: "nat \<Rightarrow> bool" where
  \<comment> \<open>the ASCII digits\<close>
  "isdigit c \<longleftrightarrow> 48 \<le> c \<and> c \<le> 57"

definition decimal_of :: "env \<Rightarrow> nat \<Rightarrow> nat option" where
  \<comment> \<open>the value of a character as a decimal digit\<close>
  "decimal_of e c =
     (if c < 128 then (if isdigit c then Some (c - 48) else None) else to_decimal e c)"

definition is_decimal :: "env \<Rightarrow> nat \<Rightarrow> bool" where
  "is_decimal e c \<longleftrightarrow> decimal_of e c \<noteq> None"

definition int_space :: "nat \<Rightarrow> bool" where
  \<comment> \<open>the whitespace that \<^verbatim>\<open>int\<close> passes over at both ends: the six ASCII ones and the
      whitespace beyond ASCII\<close>
  "int_space c \<longleftrightarrow> (9 \<le> c \<and> c \<le> 13) \<or> c = 32 \<or> (127 \<le> c \<and> isspace c)"

definition int_strip :: "pystr \<Rightarrow> pystr" where
  "int_strip s = rev (dropWhile int_space (rev (dropWhile int_space s)))"

fun digits_value :: "env \<Rightarrow> int \<Rightarrow> pystr \<Rightarrow> int option" where
  \<comment> \<open>the digits after the first one; one underscore may stand between two digits\<close>
  "digits_value e acc [] = Some acc"
| "digits_value e acc (c # cs) =
     (case decimal_of e c of
        Some v \<Rightarrow> digits_value e (acc * 10 + int v) cs
      | None \<Rightarrow>
          if c = 95 then
            (case cs of
               [] \<Rightarrow> None
             | d # ds \<Rightarrow>
                 (case decimal_of e d of
                    Some v \<Rightarrow> digits_value e (acc * 10 + int v) ds
                  | None \<Rightarrow> None))
          else None)"

definition unsigned_value :: "env \<Rightarrow> pystr \<Rightarrow> int option" where
  "unsigned_value e s =
     (case s of
        [] \<Rightarrow> None
      | c # cs \<Rightarrow>
          (case decimal_of e c of
             Some v \<Rightarrow> digits_value e (int v) cs
           | None \<Rightarrow> None))"

definition too_many_digits :: "env \<Rightarrow> pystr \<Rightarrow> bool" where
  \<comment> \<open>the literal has more digits than the interpreter converts (the limit applies above
      640 digits only)\<close>
  "too_many_digits e s \<longleftrightarrow>
     640 < length (filter (is_decimal e) s) \<and> 0 < int_max_str_digits e \<and>
     int_max_str_digits e < length (filter (is_decimal e) s)"

definition py_int :: "env \<Rightarrow> pystr \<Rightarrow> int option" where
  \<comment> \<open>\<^verbatim>\<open>int(s)\<close>; \<open>None\<close> is \<^verbatim>\<open>ValueError\<close>. Surrounding whitespace, one sign,
      then digits.\<close>
  "py_int e s =
     (case int_strip s of
        [] \<Rightarrow> None
      | c # cs \<Rightarrow>
          if too_many_digits e (c # cs) then None
          else if c = 43 then unsigned_value e cs
          else if c = 45 then map_option uminus (unsigned_value e cs)
          else unsigned_value e (c # cs))"

subsection \<open>\<^verbatim>\<open>EMAIL_RE\<close>\<close>

definition email_char :: "nat \<Rightarrow> bool" where
  \<comment> \<open>the class \<^verbatim>\<open>[^@\s]\<close>\<close>
  "email_char c \<longleftrightarrow> c \<noteq> 64 \<and> \<not> isspace c"

definition EMAIL_RE_shape :: "pystr \<Rightarrow> bool" where
  \<comment> \<open>\<^verbatim>\<open>^[^@\s]+@[^@\s]+\.[^@\s]+$\<close> read as a language: three non-empty runs of the
      class, joined by \<^verbatim>\<open>@\<close> and \<^verbatim>\<open>.\<close>; \<^verbatim>\<open>$\<close> also matches before one final
      newline\<close>
  "EMAIL_RE_shape s \<longleftrightarrow>
     (\<exists>a b c.
        (s = a @ [64] @ b @ [46] @ c \<or> s = a @ [64] @ b @ [46] @ c @ [10]) \<and>
        a \<noteq> [] \<and> b \<noteq> [] \<and> c \<noteq> [] \<and>
        list_all email_char a \<and> list_all email_char b \<and> list_all email_char c)"

definition EMAIL_RE_match :: "pystr \<Rightarrow> bool" where
  \<comment> \<open>\<^verbatim>\<open>EMAIL_RE.match(s)\<close> is not \<^verbatim>\<open>None\<close>, as a program\<close>
  "EMAIL_RE_match s =
     (let a = takeWhile email_char s; r = dropWhile email_char s in
      a \<noteq> [] \<and>
      (case r of
         [] \<Rightarrow> False
       | x # d \<Rightarrow>
           x = 64 \<and>
           (let d' = (if d \<noteq> [] \<and> last d = 10 then butlast d else d) in
            list_all email_char d' \<and> 46 \<in> set (butlast (tl d')))))"

subsection \<open>\<^verbatim>\<open>csv.DictReader\<close>\<close>

text \<open>
  A row of \<^verbatim>\<open>DictReader\<close> is a \<^verbatim>\<open>dict\<close> from the header's names, as they are
  written in the header, to the fields of the record. A key maps to \<open>Some v\<close> for a
  field \<open>v\<close> and to \<open>None\<close> for \<^verbatim>\<open>restval\<close> (\<^verbatim>\<open>None\<close>) where the record is shorter
  than the header. Fields beyond the header go under the key \<^verbatim>\<open>None\<close>, which no
  lookup of the source reads.
\<close>

type_synonym pydict = "pystr \<rightharpoonup> pystr option"

definition dict_row :: "pystr list \<Rightarrow> pystr list \<Rightarrow> pydict" where
  \<comment> \<open>\<^verbatim>\<open>d = dict(zip(fieldnames, row))\<close>, then \<^verbatim>\<open>d[key] = restval\<close> for
      \<^verbatim>\<open>fieldnames[len(row):]\<close>\<close>
  "dict_row fieldnames row =
     fold (\<lambda>key d. d(key \<mapsto> None)) (drop (length row) fieldnames)
       (fold (\<lambda>(key, v) d. d(key \<mapsto> Some v)) (zip fieldnames row) Map.empty)"

definition get_or_empty :: "pydict \<Rightarrow> pystr \<Rightarrow> pystr" where
  \<comment> \<open>\<^verbatim>\<open>(row.get(key) or "")\<close>\<close>
  "get_or_empty d key = (case d key of Some (Some v) \<Rightarrow> v | _ \<Rightarrow> [])"

subsection \<open>Time stamps\<close>

definition datetime_ok :: "datetime \<Rightarrow> bool" where
  \<comment> \<open>the ranges that the class \<^verbatim>\<open>datetime\<close> enforces on its fields\<close>
  "datetime_ok t \<longleftrightarrow>
     1 \<le> dt_year t \<and> dt_year t \<le> 9999 \<and> 1 \<le> dt_month t \<and> dt_month t \<le> 12 \<and>
     1 \<le> dt_day t \<and> dt_day t \<le> 31 \<and> dt_hour t < 24 \<and> dt_minute t < 60 \<and>
     dt_second t < 60 \<and> dt_microsecond t < 1000000"

fun decimal :: "nat \<Rightarrow> pystr" where
  "decimal n = (if n < 10 then [48 + n] else decimal (n div 10) @ [48 + n mod 10])"

declare decimal.simps [simp del]

definition zpad :: "nat \<Rightarrow> nat \<Rightarrow> pystr" where
  \<comment> \<open>\<^verbatim>\<open>"%0wd" % n\<close>\<close>
  "zpad w n = replicate (w - length (decimal n)) 48 @ decimal n"

definition isoformat_seconds :: "datetime \<Rightarrow> pystr" where
  \<comment> \<open>\<^verbatim>\<open>t.isoformat(timespec="seconds")\<close> of a naive \<^verbatim>\<open>datetime\<close>\<close>
  "isoformat_seconds t =
     zpad 4 (dt_year t) @ [45] @ zpad 2 (dt_month t) @ [45] @ zpad 2 (dt_day t) @ [84] @
     zpad 2 (dt_hour t) @ [58] @ zpad 2 (dt_minute t) @ [58] @ zpad 2 (dt_second t)"

subsection \<open>The table \<^verbatim>\<open>customers\<close>\<close>

record customer =
  c_id :: nat
  c_name :: pystr
  c_email :: pystr
  c_age :: int
  c_created_at :: pystr

record database =
  customers :: "customer list"
  seq :: nat

datatype sqlite_error = IntegrityError | OperationalError

definition execute_insert ::
  "bool \<Rightarrow> database \<Rightarrow> pystr \<times> pystr \<times> int \<times> pystr \<Rightarrow> sqlite_error + database" where
  \<comment> \<open>\<^verbatim>\<open>INSERT INTO customers(name,email,age,created_at) VALUES(?,?,?,?)\<close>:
      \<^verbatim>\<open>email\<close> is \<^verbatim>\<open>UNIQUE\<close>, \<^verbatim>\<open>id\<close> is \<^verbatim>\<open>AUTOINCREMENT\<close> (one more than
      every id the table holds or has held)\<close>
  "execute_insert fault con v =
     (case v of (name, email, age, created_at) \<Rightarrow>
        if fault then Inl OperationalError
        else if email \<in> set (map c_email (customers con)) then Inl IntegrityError
        else
          (let new_id = Suc (fold max (map c_id (customers con)) (seq con)) in
           Inr (con\<lparr>customers := customers con @
                      [\<lparr>c_id = new_id, c_name = name, c_email = email, c_age = age,
                        c_created_at = created_at\<rparr>],
                    seq := new_id\<rparr>)))"

definition export_rows :: "database \<Rightarrow> (pystr \<times> pystr \<times> int \<times> pystr) list" where
  \<comment> \<open>\<^verbatim>\<open>SELECT name,email,age,created_at FROM customers ORDER BY id\<close> of \<^verbatim>\<open>export\<close>\<close>
  "export_rows con =
     map (\<lambda>c. (c_name c, c_email c, c_age c, c_created_at c)) (sort_key c_id (customers con))"

subsection \<open>\<^verbatim>\<open>import_csv_stream\<close>\<close>

datatype msg = NameTooShort | InvalidEmail | InvalidAge | DuplicateEmail

text \<open>
  The four messages of the source, by their reason in the specification:
  \<open>NameTooShort\<close> is \<^verbatim>\<open>"name must be at least 2 characters"\<close>, \<open>InvalidEmail\<close> is
  \<^verbatim>\<open>"invalid email"\<close>, \<open>InvalidAge\<close> is the message \<^verbatim>\<open>"age must be an integer ..."\<close>
  and \<open>DuplicateEmail\<close> is \<^verbatim>\<open>"duplicate email (already imported)"\<close>.
\<close>

record row_error =
  err_row :: nat
  err_msg :: msg

datatype error = HeaderError | StoreFault

type_synonym loop_state = "nat \<times> row_error list \<times> database"

definition created_at_now :: "env \<Rightarrow> nat \<Rightarrow> pystr" where
  \<comment> \<open>\<^verbatim>\<open>datetime.utcnow().isoformat(timespec="seconds")+"Z"\<close>\<close>
  "created_at_now e i = isoformat_seconds (utcnow e i) @ [90]"

definition loop_body :: "env \<Rightarrow> nat \<Rightarrow> pydict \<Rightarrow> loop_state \<Rightarrow> error + loop_state" where
  \<comment> \<open>one pass of the \<^verbatim>\<open>for\<close> loop on row \<open>i\<close>; \<open>Inl\<close> is an exception that
      leaves the loop\<close>
  "loop_body e i row st =
     (case st of (ok, errors, con) \<Rightarrow>
        let name = strip (get_or_empty row (u ''name''));
            email = lower e (strip (get_or_empty row (u ''email'')));
            age_s = strip (get_or_empty row (u ''age''))
        in
        if length name < 2 then
          Inr (ok, errors @ [\<lparr>err_row = i, err_msg = NameTooShort\<rparr>], con)
        else if \<not> EMAIL_RE_match email then
          Inr (ok, errors @ [\<lparr>err_row = i, err_msg = InvalidEmail\<rparr>], con)
        else
          (case py_int e age_s of
             None \<Rightarrow> Inr (ok, errors @ [\<lparr>err_row = i, err_msg = InvalidAge\<rparr>], con)
           | Some age \<Rightarrow>
               if age < 1 \<or> age > 120 then
                 Inr (ok, errors @ [\<lparr>err_row = i, err_msg = InvalidAge\<rparr>], con)
               else
                 (case execute_insert (store_fault e i) con
                         (name, email, age, created_at_now e i) of
                    Inr con' \<Rightarrow> Inr (ok + 1, errors, con')
                  | Inl IntegrityError \<Rightarrow>
                      Inr (ok, errors @ [\<lparr>err_row = i, err_msg = DuplicateEmail\<rparr>], con)
                  | Inl OperationalError \<Rightarrow> Inl StoreFault)))"

fun for_rows ::
  "env \<Rightarrow> pystr list \<Rightarrow> nat \<Rightarrow> pystr list list \<Rightarrow> loop_state \<Rightarrow> error + loop_state" where
  \<comment> \<open>\<^verbatim>\<open>for i, row in enumerate(reader, start=i)\<close> over the records left in the
      reader; \<^verbatim>\<open>DictReader.__next__\<close> passes over every empty record\<close>
  "for_rows e fieldnames i [] st = Inr st"
| "for_rows e fieldnames i (r # rs) st =
     (if r = [] then for_rows e fieldnames i rs st
      else
        (case loop_body e i (dict_row fieldnames r) st of
           Inl x \<Rightarrow> Inl x
         | Inr st' \<Rightarrow> for_rows e fieldnames (Suc i) rs st'))"

definition required :: "pystr list" where
  "required = [u ''name'', u ''email'', u ''age'']"

definition header_names :: "env \<Rightarrow> pystr list list \<Rightarrow> pystr list" where
  \<comment> \<open>\<^verbatim>\<open>[c.strip().lower() for c in reader.fieldnames or []]\<close>; \<^verbatim>\<open>fieldnames\<close> is
      the first record, \<^verbatim>\<open>None\<close> for an empty stream\<close>
  "header_names e recs =
     (case recs of [] \<Rightarrow> [] | h # _ \<Rightarrow> map (\<lambda>c. lower e (strip c)) h)"

definition import_csv_stream ::
  "env \<Rightarrow> pystr list list \<Rightarrow> database \<Rightarrow> (error + nat \<times> row_error list) \<times> database" where
  \<comment> \<open>the result and the table after the call: \<^verbatim>\<open>with db() as con\<close> commits when the
      block ends and rolls back when an exception leaves it\<close>
  "import_csv_stream e recs con =
     (if \<not> set required \<subseteq> set (header_names e recs) then (Inl HeaderError, con)
      else
        (case for_rows e (hd recs) 2 (tl recs) (0, [], con) of
           Inl x \<Rightarrow> (Inl x, con)
         | Inr (ok, errors, con') \<Rightarrow> (Inr (ok, errors), con')))"

subsection \<open>Notions used in the properties\<close>

definition passes_validation :: "env \<Rightarrow> pydict \<Rightarrow> bool" where
  \<comment> \<open>none of the three checks of the loop body rejects the row\<close>
  "passes_validation e row \<longleftrightarrow>
     2 \<le> length (strip (get_or_empty row (u ''name''))) \<and>
     EMAIL_RE_match (lower e (strip (get_or_empty row (u ''email'')))) \<and>
     (case py_int e (strip (get_or_empty row (u ''age''))) of
        None \<Rightarrow> False
      | Some age \<Rightarrow> 1 \<le> age \<and> age \<le> 120)"

definition insert_values :: "env \<Rightarrow> nat \<Rightarrow> pydict \<Rightarrow> pystr \<times> pystr \<times> int \<times> pystr" where
  \<comment> \<open>the parameters \<^verbatim>\<open>(name, email, age, ...+"Z")\<close> of the \<^verbatim>\<open>INSERT\<close> for row \<open>i\<close>\<close>
  "insert_values e i row =
     (strip (get_or_empty row (u ''name'')),
      lower e (strip (get_or_empty row (u ''email''))),
      the (py_int e (strip (get_or_empty row (u ''age'')))),
      created_at_now e i)"

definition data_rows :: "pystr list list \<Rightarrow> pystr list list" where
  \<comment> \<open>the records that \<^verbatim>\<open>DictReader\<close> turns into rows\<close>
  "data_rows recs = filter (\<lambda>r. r \<noteq> []) recs"

definition emails :: "database \<Rightarrow> pystr set" where
  "emails con = set (map c_email (customers con))"




definition digits_to_nat :: "pystr \<Rightarrow> nat" where
  \<comment> \<open>the number that a run of ASCII digits denotes\<close>
  "digits_to_nat s = fold (\<lambda>c a. a * 10 + (c - 48)) s 0"

definition iso8601_utc_seconds :: "pystr \<Rightarrow> datetime \<Rightarrow> bool" where
  \<comment> \<open>\<open>s\<close> is the ISO-8601 form \<^verbatim>\<open>YYYY-MM-DDTHH:MM:SSZ\<close> of the time \<open>t\<close> to the
      second: the layout, the six fields of \<open>t\<close> in their places, and the fields in the
      ranges of a time of day on a day of a month\<close>
  "iso8601_utc_seconds s t \<longleftrightarrow>
     length s = 20 \<and>
     list_all isdigit (take 4 s) \<and> s ! 4 = 45 \<and>
     list_all isdigit (take 2 (drop 5 s)) \<and> s ! 7 = 45 \<and>
     list_all isdigit (take 2 (drop 8 s)) \<and> s ! 10 = 84 \<and>
     list_all isdigit (take 2 (drop 11 s)) \<and> s ! 13 = 58 \<and>
     list_all isdigit (take 2 (drop 14 s)) \<and> s ! 16 = 58 \<and>
     list_all isdigit (take 2 (drop 17 s)) \<and> s ! 19 = 90 \<and>
     digits_to_nat (take 4 s) = dt_year t \<and>
     digits_to_nat (take 2 (drop 5 s)) = dt_month t \<and>
     digits_to_nat (take 2 (drop 8 s)) = dt_day t \<and>
     digits_to_nat (take 2 (drop 11 s)) = dt_hour t \<and>
     digits_to_nat (take 2 (drop 14 s)) = dt_minute t \<and>
     digits_to_nat (take 2 (drop 17 s)) = dt_second t \<and>
     1 \<le> dt_month t \<and> dt_month t \<le> 12 \<and> 1 \<le> dt_day t \<and> dt_day t \<le> 31 \<and>
     dt_hour t < 24 \<and> dt_minute t < 60 \<and> dt_second t < 60"

subsection \<open>Sample data\<close>

definition header0 :: "pystr list" where
  "header0 = [u ''name'', u ''email'', u ''age'']"

definition row_of :: "string \<Rightarrow> string \<Rightarrow> string \<Rightarrow> pydict" where
  \<comment> \<open>the row that \<^verbatim>\<open>DictReader\<close> yields for a record under the header \<^verbatim>\<open>name,email,age\<close>\<close>
  "row_of n m a = dict_row header0 [u n, u m, u a]"

definition time0 :: datetime where
  "time0 = \<lparr>dt_year = 2024, dt_month = 3, dt_day = 7, dt_hour = 9, dt_minute = 5,
            dt_second = 2, dt_microsecond = 0\<rparr>"

definition env0 :: env where
  \<comment> \<open>a clock that stands still, a store without hard faults, and an excerpt of the
      Unicode database: the Greek capitals and U+0130 among the case mappings, the ASCII
      and Greek letters among the cased characters, the Arabic-Indic and the full-width
      digits\<close>
  "env0 =
     \<lparr>utcnow = (\<lambda>i. time0),
      store_fault = (\<lambda>i. False),
      to_lower_full =
        (\<lambda>c. if (913 \<le> c \<and> c \<le> 929) \<or> (931 \<le> c \<and> c \<le> 939) then [c + 32]
              else if c = 304 then [105, 775] else [c]),
      is_cased =
        (\<lambda>c. (65 \<le> c \<and> c \<le> 90) \<or> (97 \<le> c \<and> c \<le> 122) \<or> (913 \<le> c \<and> c \<le> 929) \<or>
              (931 \<le> c \<and> c \<le> 939) \<or> (945 \<le> c \<and> c \<le> 969)),
      is_case_ignorable =
        (\<lambda>c. c = 39 \<or> c = 46 \<or> c = 58 \<or> c = 94 \<or> c = 96 \<or> c = 173 \<or> c = 775),
      to_decimal =
        (\<lambda>c. if 1632 \<le> c \<and> c \<le> 1641 then Some (c - 1632)
              else if 65296 \<le> c \<and> c \<le> 65305 then Some (c - 65296) else None),
      int_max_str_digits = 4300\<rparr>"

definition env_fault :: "nat \<Rightarrow> env" where
  \<comment> \<open>the \<^verbatim>\<open>INSERT\<close> of row \<open>k\<close> fails hard\<close>
  "env_fault k = env0\<lparr>store_fault := (\<lambda>i. i = k)\<rparr>"

definition db0 :: database where
  "db0 = \<lparr>customers = [], seq = 0\<rparr>"

definition scenario :: "pystr list list" where
  \<comment> \<open>the records of \<^verbatim>\<open>name,email,age\<close>, \<^verbatim>\<open>Alice,alice@example.com,30\<close>,
      \<^verbatim>\<open>Bob,bob@example,25\<close>, \<^verbatim>\<open>Cara,cara@example.com,200\<close>\<close>
  "scenario =
     [header0,
      [u ''Alice'', u ''alice@example.com'', u ''30''],
      [u ''Bob'', u ''bob@example'', u ''25''],
      [u ''Cara'', u ''cara@example.com'', u ''200'']]"

definition no_age_column :: "pystr list list" where
  \<comment> \<open>the records of \<^verbatim>\<open>name,email\<close>, \<^verbatim>\<open>Alice,alice@example.com\<close>\<close>
  "no_age_column = [[u ''name'', u ''email''], [u ''Alice'', u ''alice@example.com'']]"

definition blank_line_file :: "pystr list list" where
  \<comment> \<open>the records of \<^verbatim>\<open>name,email,age\<close>, \<^verbatim>\<open>Alice,alice@example.com,30\<close>, a blank line,
      \<^verbatim>\<open>B,bob@example.com,25\<close>\<close>
  "blank_line_file =
     [header0,
      [u ''Alice'', u ''alice@example.com'', u ''30''],
      [],
      [u ''B'', u ''bob@example.com'', u ''25'']]"

definition alice :: "pystr list" where
  \<comment> \<open>the record of \<^verbatim>\<open>Alice,alice@example.com,30\<close>\<close>
  "alice = [u ''Alice'', u ''alice@example.com'', u ''30'']"

definition capital_header_file :: "pystr list list" where
  \<comment> \<open>the records of \<^verbatim>\<open>Name,Email,Age\<close>, \<^verbatim>\<open>Alice,alice@example.com,30\<close>\<close>
  "capital_header_file = [[u ''Name'', u ''Email'', u ''Age''], alice]"

definition bom_file :: "pystr list list" where
  \<comment> \<open>the records of a stream that starts with U+FEFF, then \<^verbatim>\<open>name,email,age\<close>,
      \<^verbatim>\<open>Alice,alice@example.com,30\<close>\<close>
  "bom_file = [[65279 # u ''name'', u ''email'', u ''age''], alice]"

definition same_email_file :: "pystr list list" where
  \<comment> \<open>the records of \<^verbatim>\<open>name,email,age\<close>, \<^verbatim>\<open>Alice,Alice@Example.com,30\<close>,
      \<^verbatim>\<open>A, alice@example.com,30\<close>\<close>
  "same_email_file =
     [header0,
      [u ''Alice'', u ''Alice@Example.com'', u ''30''],
      [u ''A'', u '' alice@example.com'', u ''30'']]"

definition db_alice :: database where
  \<comment> \<open>the table after an earlier call has imported \<open>alice\<close>\<close>
  "db_alice =
     \<lparr>customers =
        [\<lparr>c_id = 1, c_name = u ''Alice'', c_email = u ''alice@example.com'', c_age = 30,
          c_created_at = u ''2024-03-07T09:05:02Z''\<rparr>],
      seq = 1\<rparr>"

definition alicia :: "pystr list" where
  \<comment> \<open>the record of \<^verbatim>\<open>Alicia, Alice@Example.COM ,31\<close>\<close>
  "alicia = [u ''Alicia'', u '' Alice@Example.COM '', u ''31'']"

definition bob :: "pystr list" where
  \<comment> \<open>the record of \<^verbatim>\<open>Bob,bob@example.org,25\<close>\<close>
  "bob = [u ''Bob'', u ''bob@example.org'', u ''25'']"


definition cara :: "pystr list" where
  \<comment> \<open>the record of \<^verbatim>\<open>Cara,cara@example.com,200\<close>\<close>
  "cara = [u ''Cara'', u ''cara@example.com'', u ''200'']"

definition dan :: "pystr list" where
  \<comment> \<open>the record of \<^verbatim>\<open>Dan,Dan@Example.com,41\<close>\<close>
  "dan = [u ''Dan'', u ''Dan@Example.com'', u ''41'']"

definition sofia :: "pystr list" where
  \<comment> \<open>a record whose email starts with the Greek capitals sigma and alpha (U+03A3,
      U+0391), before \<^verbatim>\<open>@example.com\<close>\<close>
  "sofia = [u ''Sofia'', [931, 913] @ u ''@example.com'', u ''29'']"

definition sofia_lower :: "pystr list" where
  \<comment> \<open>the same email in the small letters sigma and alpha (U+03C3, U+03B1)\<close>
  "sofia_lower = [u ''Sofia'', [963, 945] @ u ''@example.com'', u ''29'']"

section \<open>Properties\<close>

subsection \<open>Evaluation\<close>

lemmas str_defs = u_def strip_def isspace_def lower_def lower_cp_def lower_full_def

lemmas int_defs =
  py_int_def unsigned_value_def isdigit_def decimal_of_def is_decimal_def int_space_def
  int_strip_def too_many_digits_def

lemmas re_defs = EMAIL_RE_match_def email_char_def

lemmas row_defs = dict_row_def get_or_empty_def header0_def row_of_def

lemmas time_defs = zpad_def isoformat_seconds_def created_at_now_def time0_def decimal.simps

lemmas loop_defs = loop_body_def execute_insert_def env0_def env_fault_def db0_def

lemmas import_defs = required_def header_names_def import_csv_stream_def

subsection \<open>The regular expression\<close>

lemma email_char_46: "email_char 46"
  by (simp add: email_char_def isspace_def)

lemma not_email_char_64: "\<not> email_char 64"
  by (simp add: email_char_def)

lemma not_email_char_10: "\<not> email_char 10"
  by (simp add: email_char_def isspace_def)

lemma match_core:
  assumes a: "a \<noteq> []" "list_all email_char a"
    and b: "b \<noteq> []" "list_all email_char b"
    and c: "c \<noteq> []" "list_all email_char c"
    and t: "t = [] \<or> t = [10]"
  shows "EMAIL_RE_match (a @ [64] @ b @ [46] @ c @ t)"
proof -
  let ?d = "b @ [46] @ c @ t"
  have tw: "takeWhile email_char (a @ [64] @ ?d) = a"
    using a(2) by (simp add: list_all_iff takeWhile_append2 not_email_char_64)
  have dw: "dropWhile email_char (a @ [64] @ ?d) = 64 # ?d"
    using a(2) by (simp add: list_all_iff dropWhile_append2 not_email_char_64)
  have lc: "last c \<noteq> 10"
    using c not_email_char_10 by (metis last_in_set list_all_iff)
  have d': "(if ?d \<noteq> [] \<and> last ?d = 10 then butlast ?d else ?d) = b @ [46] @ c"
    using t c(1) lc by (auto simp: butlast_append)
  have all: "list_all email_char (b @ [46] @ c)"
    using b(2) c(2) by (simp add: email_char_46)
  have "tl (b @ [46] @ c) = tl b @ [46] @ c"
    using b(1) by simp
  moreover have "butlast (tl b @ [46] @ c) = tl b @ [46] @ butlast c"
    using c(1) by (simp add: butlast_append)
  ultimately have dot: "46 \<in> set (butlast (tl (b @ [46] @ c)))"
    by simp
  show ?thesis
    apply (simp only: EMAIL_RE_match_def Let_def tw dw list.case d')
    using a(1) all dot by simp
qed

lemma shape_imp_match: "EMAIL_RE_shape s \<Longrightarrow> EMAIL_RE_match s"
  unfolding EMAIL_RE_shape_def
  using match_core [where t = "[]"] match_core [where t = "[10]"]
  by (metis append.right_neutral)

lemma match_imp_shape:
  assumes "EMAIL_RE_match s"
  shows "EMAIL_RE_shape s"
proof -
  define a where "a = takeWhile email_char s"
  define r where "r = dropWhile email_char s"
  have s: "s = a @ r"
    by (simp add: a_def r_def)
  from assms have a: "a \<noteq> []"
    by (simp add: EMAIL_RE_match_def Let_def a_def)
  have aa: "list_all email_char a"
    by (metis a_def list_all_iff set_takeWhileD)
  from assms obtain d where r: "r = 64 # d"
    by (auto simp: EMAIL_RE_match_def Let_def r_def split: list.splits)
  define d' where "d' = (if d \<noteq> [] \<and> last d = 10 then butlast d else d)"
  from assms r have all: "list_all email_char d'" and dot: "46 \<in> set (butlast (tl d'))"
    by (auto simp: EMAIL_RE_match_def Let_def r_def [symmetric] d'_def)
  have dd: "d = d' \<or> d = d' @ [10]"
    unfolding d'_def by (metis append_butlast_last_id)
  from dot obtain y rest where d'c: "d' = y # rest"
    by (cases d') auto
  with dot have "46 \<in> set (butlast rest)"
    by simp
  then obtain p q where pq: "butlast rest = p @ 46 # q"
    by (meson split_list)
  then have "rest \<noteq> []"
    by auto
  then have rest: "rest = p @ 46 # q @ [last rest]"
    using pq by (metis append_butlast_last_id append.assoc append_Cons)
  define b where "b = y # p"
  define c where "c = q @ [last rest]"
  have d'e: "d' = b @ [46] @ c"
    using d'c rest by (simp add: b_def c_def)
  have bc: "b \<noteq> []" "c \<noteq> []"
    by (simp_all add: b_def c_def)
  have "list_all email_char b" "list_all email_char c"
    using all unfolding d'e by simp_all
  with a aa bc dd s r d'e show ?thesis
    unfolding EMAIL_RE_shape_def by (metis append.assoc append_Cons append_Nil)
qed

lemma EMAIL_RE_match_iff: "EMAIL_RE_match s = EMAIL_RE_shape s"
  using shape_imp_match match_imp_shape by blast

subsection \<open>Integer literals\<close>















subsection \<open>One pass of the loop\<close>

lemma loop_body_valid:
  "passes_validation e row \<Longrightarrow>
   loop_body e i row (ok, errors, con) =
     (case execute_insert (store_fault e i) con (insert_values e i row) of
        Inr con' \<Rightarrow> Inr (ok + 1, errors, con')
      | Inl IntegrityError \<Rightarrow>
          Inr (ok, errors @ [\<lparr>err_row = i, err_msg = DuplicateEmail\<rparr>], con)
      | Inl OperationalError \<Rightarrow> Inl StoreFault)"
  by (auto simp: passes_validation_def insert_values_def loop_body_def Let_def
           split: option.splits)

lemma loop_body_invalid:
  "\<not> passes_validation e row \<Longrightarrow>
   \<exists>m. m \<noteq> DuplicateEmail \<and>
       loop_body e i row (ok, errors, con) =
         Inr (ok, errors @ [\<lparr>err_row = i, err_msg = m\<rparr>], con)"
  by (auto simp: passes_validation_def loop_body_def Let_def split: option.splits)

lemma execute_insert_cases:
  "execute_insert fault con (n, m, a, t) =
     (if fault then Inl OperationalError
      else if m \<in> emails con then Inl IntegrityError
      else Inr (con\<lparr>customers := customers con @
                  [\<lparr>c_id = Suc (fold max (map c_id (customers con)) (seq con)), c_name = n,
                    c_email = m, c_age = a, c_created_at = t\<rparr>],
                seq := Suc (fold max (map c_id (customers con)) (seq con))\<rparr>))"
  by (simp add: execute_insert_def emails_def Let_def)

lemma loop_body_Inl: "loop_body e i row st = Inl x \<Longrightarrow> x = StoreFault \<and> store_fault e i"
  by (cases st)
     (auto simp: loop_body_def execute_insert_def Let_def
           split: option.splits if_splits sum.splits sqlite_error.splits)

lemma loop_body_step:
  assumes "\<not> store_fault e i"
  shows "\<exists>ok' new con'.
           loop_body e i row (ok, errors, con) = Inr (ok', errors @ new, con') \<and>
           ok \<le> ok' \<and> ok' + length new = Suc ok \<and> (\<forall>x\<in>set new. err_row x = i) \<and>
           length (customers con') = length (customers con) + (ok' - ok) \<and>
           emails con \<subseteq> emails con'"
proof (cases "passes_validation e row")
  case False
  from loop_body_invalid [OF this, of i ok errors con]
  obtain m where "loop_body e i row (ok, errors, con) =
      Inr (ok, errors @ [\<lparr>err_row = i, err_msg = m\<rparr>], con)"
    by blast
  then show ?thesis
    by (intro exI conjI, assumption) auto
next
  case True
  obtain n m a t where v: "insert_values e i row = (n, m, a, t)"
    by (cases "insert_values e i row") auto
  show ?thesis
  proof (cases "m \<in> emails con")
    case True
    with \<open>passes_validation e row\<close> assms v
    have "loop_body e i row (ok, errors, con) =
            Inr (ok, errors @ [\<lparr>err_row = i, err_msg = DuplicateEmail\<rparr>], con)"
      by (simp add: loop_body_valid execute_insert_cases)
    then show ?thesis
      by (intro exI conjI, assumption) auto
  next
    case False
    with \<open>passes_validation e row\<close> assms v
    have "loop_body e i row (ok, errors, con) =
            Inr (Suc ok, errors @ [],
                 con\<lparr>customers := customers con @
                  [\<lparr>c_id = Suc (fold max (map c_id (customers con)) (seq con)), c_name = n,
                    c_email = m, c_age = a, c_created_at = t\<rparr>],
                  seq := Suc (fold max (map c_id (customers con)) (seq con))\<rparr>)"
      by (simp add: loop_body_valid execute_insert_cases)
    then show ?thesis
      by (intro exI conjI, assumption) (auto simp: emails_def)
  qed
qed

subsection \<open>The whole loop\<close>

lemma for_rows_Inl: "for_rows e f i rs st = Inl x \<Longrightarrow> x = StoreFault \<and> (\<exists>j. store_fault e j)"
  by (induction e f i rs st rule: for_rows.induct)
     (auto split: if_splits sum.splits dest: loop_body_Inl)

lemma for_rows_data_rows: "for_rows e f i (data_rows rs) st = for_rows e f i rs st"
  by (induction rs arbitrary: i st) (auto simp: data_rows_def split: sum.splits)

lemma for_rows_append:
  "for_rows e f i (pre @ post) st =
     (case for_rows e f i pre st of
        Inl x \<Rightarrow> Inl x
      | Inr st' \<Rightarrow> for_rows e f (i + length (data_rows pre)) post st')"
  by (induction pre arbitrary: i st) (auto simp: data_rows_def split: sum.splits)

lemma for_rows_summary:
  assumes "\<forall>j. \<not> store_fault e j"
  shows "\<exists>ok' new con'.
           for_rows e f i rs (ok, errors, con) = Inr (ok', errors @ new, con') \<and>
           ok \<le> ok' \<and> ok' + length new = ok + length (data_rows rs) \<and>
           sorted_wrt (<) (map err_row new) \<and>
           (\<forall>x\<in>set new. i \<le> err_row x \<and> err_row x < i + length (data_rows rs)) \<and>
           length (customers con') = length (customers con) + (ok' - ok) \<and>
           emails con \<subseteq> emails con'"
proof (induction rs arbitrary: i ok errors con)
  case Nil
  show ?case
    by (rule exI [of _ ok], rule exI [of _ "[]"], rule exI [of _ con])
       (simp add: data_rows_def)
next
  case (Cons r rs)
  show ?case
  proof (cases "r = []")
    case True
    with Cons [of i ok errors con] show ?thesis
      by (simp add: data_rows_def)
  next
    case False
    from assms have "\<not> store_fault e i"
      by simp
    from loop_body_step [OF this, of "dict_row f r" ok errors con]
    obtain ok1 new1 con1 where
      s: "loop_body e i (dict_row f r) (ok, errors, con) = Inr (ok1, errors @ new1, con1)"
      and m1: "ok \<le> ok1" and c1: "ok1 + length new1 = Suc ok"
      and r1: "\<forall>x\<in>set new1. err_row x = i"
      and l1: "length (customers con1) = length (customers con) + (ok1 - ok)"
      and e1: "emails con \<subseteq> emails con1"
      by blast
    from Cons [of "Suc i" ok1 "errors @ new1" con1]
    obtain ok2 new2 con2 where
      t: "for_rows e f (Suc i) rs (ok1, errors @ new1, con1) =
            Inr (ok2, (errors @ new1) @ new2, con2)"
      and m2: "ok1 \<le> ok2" and c2: "ok2 + length new2 = ok1 + length (data_rows rs)"
      and o2: "sorted_wrt (<) (map err_row new2)"
      and r2: "\<forall>x\<in>set new2. Suc i \<le> err_row x \<and> err_row x < Suc i + length (data_rows rs)"
      and l2: "length (customers con2) = length (customers con1) + (ok2 - ok1)"
      and e2: "emails con1 \<subseteq> emails con2"
      by blast
    have d: "length (data_rows (r # rs)) = Suc (length (data_rows rs))"
      using False by (simp add: data_rows_def)
    have "for_rows e f i (r # rs) (ok, errors, con) = Inr (ok2, errors @ (new1 @ new2), con2)"
      using False s t by simp
    moreover have "ok \<le> ok2"
      using m1 m2 by simp
    moreover have "ok2 + length (new1 @ new2) = ok + length (data_rows (r # rs))"
      using c1 c2 d by simp
    moreover have "sorted_wrt (<) (map err_row (new1 @ new2))"
    proof -
      have "length new1 \<le> 1"
        using m1 c1 by simp
      then have "sorted_wrt (<) (map err_row new1)"
        by (cases new1) auto
      with o2 r1 r2 show ?thesis
        by (fastforce simp: sorted_wrt_append)
    qed
    moreover have "\<forall>x\<in>set (new1 @ new2).
        i \<le> err_row x \<and> err_row x < i + length (data_rows (r # rs))"
      using r1 r2 d by fastforce
    moreover have "length (customers con2) = length (customers con) + (ok2 - ok)"
      using l1 l2 m1 m2 by simp
    moreover have "emails con \<subseteq> emails con2"
      using e1 e2 by blast
    ultimately show ?thesis
      by blast
  qed
qed

lemma failing_row_number:
  assumes nf: "\<forall>j. \<not> store_fault e j" and r: "r \<noteq> []"
    and inv: "\<not> passes_validation e (dict_row f r)"
  shows "\<exists>ok' errors' con' m.
           for_rows e f i (pre @ r # post) (ok, errors, con) = Inr (ok', errors', con') \<and>
           \<lparr>err_row = i + length (data_rows pre), err_msg = m\<rparr> \<in> set errors'"
proof -
  let ?j = "i + length (data_rows pre)"
  from for_rows_summary [OF nf, of f i pre ok errors con]
  obtain ok1 new1 con1 where
    p: "for_rows e f i pre (ok, errors, con) = Inr (ok1, errors @ new1, con1)"
    by blast
  from loop_body_invalid [OF inv, of ?j ok1 "errors @ new1" con1]
  obtain m where
    s: "loop_body e ?j (dict_row f r) (ok1, errors @ new1, con1) =
          Inr (ok1, (errors @ new1) @ [\<lparr>err_row = ?j, err_msg = m\<rparr>], con1)"
    by blast
  from for_rows_summary [OF nf, of f "Suc ?j" post ok1
      "(errors @ new1) @ [\<lparr>err_row = ?j, err_msg = m\<rparr>]" con1]
  obtain ok2 new2 con2 where
    t: "for_rows e f (Suc ?j) post
          (ok1, (errors @ new1) @ [\<lparr>err_row = ?j, err_msg = m\<rparr>], con1) =
        Inr (ok2, ((errors @ new1) @ [\<lparr>err_row = ?j, err_msg = m\<rparr>]) @ new2, con2)"
    by blast
  have "for_rows e f i (pre @ r # post) (ok, errors, con) =
      Inr (ok2, ((errors @ new1) @ [\<lparr>err_row = ?j, err_msg = m\<rparr>]) @ new2, con2)"
    using r s t by (simp add: for_rows_append p)
  moreover have "\<lparr>err_row = ?j, err_msg = m\<rparr> \<in>
      set (((errors @ new1) @ [\<lparr>err_row = ?j, err_msg = m\<rparr>]) @ new2)"
    by simp
  ultimately show ?thesis
    by blast
qed

subsection \<open>Validation of one row\<close>

text \<open>
  C1. The checks of one row run in the order name, email, age, and the first one that fails
  gives the message: a trimmed name shorter than 2 gives \<open>NameTooShort\<close> whatever the email
  and the age are; a valid name with an email (trimmed, lower-cased) outside the shape of
  \<^verbatim>\<open>EMAIL_RE\<close> gives \<open>InvalidEmail\<close> whatever the age is; \<open>InvalidAge\<close> is reported
  only for a row whose name and email are both valid.
\<close>

theorem validation_order:
  "(length (strip (get_or_empty row (u ''name''))) < 2 \<longrightarrow>
      loop_body e i row (ok, errors, con) =
        Inr (ok, errors @ [\<lparr>err_row = i, err_msg = NameTooShort\<rparr>], con)) \<and>
   (2 \<le> length (strip (get_or_empty row (u ''name''))) \<and>
    \<not> EMAIL_RE_shape (lower e (strip (get_or_empty row (u ''email'')))) \<longrightarrow>
      loop_body e i row (ok, errors, con) =
        Inr (ok, errors @ [\<lparr>err_row = i, err_msg = InvalidEmail\<rparr>], con)) \<and>
   (loop_body e i row (ok, errors, con) =
        Inr (ok, errors @ [\<lparr>err_row = i, err_msg = InvalidAge\<rparr>], con) \<longrightarrow>
      2 \<le> length (strip (get_or_empty row (u ''name''))) \<and>
      EMAIL_RE_shape (lower e (strip (get_or_empty row (u ''email'')))))"
  by (auto simp: loop_body_def Let_def EMAIL_RE_match_iff
           split: option.splits sum.splits sqlite_error.splits)

theorem validation_order_witness:
  "loop_body env0 2 (row_of ''A'' ''nope'' ''abc'') (0, [], db0) =
     Inr (0, [\<lparr>err_row = 2, err_msg = NameTooShort\<rparr>], db0) \<and>
   loop_body env0 3 (row_of ''Bob'' ''bob@example'' ''200'') (0, [], db0) =
     Inr (0, [\<lparr>err_row = 3, err_msg = InvalidEmail\<rparr>], db0) \<and>
   loop_body env0 4 (row_of ''Cara'' ''cara@example.com'' ''200'') (0, [], db0) =
     Inr (0, [\<lparr>err_row = 4, err_msg = InvalidAge\<rparr>], db0) \<and>
   EMAIL_RE_shape (lower env0 (strip (get_or_empty (row_of ''Cara'' ''cara@example.com'' ''200'')
     (u ''email''))))"
proof -
  have h1: "length (strip (get_or_empty (row_of ''A'' ''nope'' ''abc'') (u ''name''))) < 2"
    by (simp add: str_defs row_defs)
  have h2: "2 \<le> length (strip (get_or_empty (row_of ''Bob'' ''bob@example'' ''200'')
                (u ''name''))) \<and>
            \<not> EMAIL_RE_shape (lower env0 (strip (get_or_empty
                (row_of ''Bob'' ''bob@example'' ''200'') (u ''email''))))"
    by (simp add: EMAIL_RE_match_iff [symmetric] str_defs row_defs re_defs)
  have h3: "loop_body env0 4 (row_of ''Cara'' ''cara@example.com'' ''200'') (0, [], db0) =
              Inr (0, [] @ [\<lparr>err_row = 4, err_msg = InvalidAge\<rparr>], db0)"
    by (simp add: str_defs row_defs re_defs int_defs loop_defs)
  note v1 = validation_order [where row = "row_of ''A'' ''nope'' ''abc''" and e = env0
    and i = 2 and ok = 0 and errors = "[]" and con = db0, THEN conjunct1, rule_format, OF h1]
  note v2 = validation_order [where row = "row_of ''Bob'' ''bob@example'' ''200''"
    and e = env0 and i = 3 and ok = 0 and errors = "[]" and con = db0,
    THEN conjunct2, THEN conjunct1, rule_format, OF h2]
  note v3 = validation_order [where row = "row_of ''Cara'' ''cara@example.com'' ''200''"
    and e = env0 and i = 4 and ok = 0 and errors = "[]" and con = db0,
    THEN conjunct2, THEN conjunct2, rule_format, OF h3]
  show ?thesis
    using v1 v2 v3 h3 unfolding append_Nil by blast
qed




subsection \<open>The header\<close>

text \<open>
  C3. The call fails with \<open>HeaderError\<close> exactly when the names of the first record,
  trimmed and lower-cased, do not include all of \<^verbatim>\<open>name\<close>, \<^verbatim>\<open>email\<close> and \<^verbatim>\<open>age\<close>
  (further columns do not matter, and a stream without any record has no names). It then
  fails before the loop: there is no summary and the table is the one before the call.
\<close>

theorem header_error_iff:
  "(fst (import_csv_stream e recs con) = Inl HeaderError) =
     (\<not> set required \<subseteq> set (header_names e recs)) \<and>
   (\<not> set required \<subseteq> set (header_names e recs) \<longrightarrow>
      import_csv_stream e recs con = (Inl HeaderError, con)) \<and>
   (set required \<subseteq> set (header_names e (h # rows))) =
     (u ''name'' \<in> set (map (\<lambda>c. lower e (strip c)) h) \<and>
      u ''email'' \<in> set (map (\<lambda>c. lower e (strip c)) h) \<and>
      u ''age'' \<in> set (map (\<lambda>c. lower e (strip c)) h)) \<and>
   import_csv_stream e [] con = (Inl HeaderError, con)"
proof -
  have a: "fst (import_csv_stream e recs con) \<noteq> Inl HeaderError"
    if "set required \<subseteq> set (header_names e recs)"
  proof (cases "for_rows e (hd recs) 2 (tl recs) (0, [], con)")
    case (Inl x)
    with for_rows_Inl [OF Inl] that show ?thesis
      by (simp add: import_csv_stream_def)
  next
    case (Inr st)
    with that show ?thesis
      by (cases st) (simp add: import_csv_stream_def)
  qed
  have b: "import_csv_stream e recs con = (Inl HeaderError, con)"
    if "\<not> set required \<subseteq> set (header_names e recs)"
    using that by (simp add: import_csv_stream_def)
  have c: "(set required \<subseteq> set (header_names e (h # rows))) =
     (u ''name'' \<in> set (map (\<lambda>c. lower e (strip c)) h) \<and>
      u ''email'' \<in> set (map (\<lambda>c. lower e (strip c)) h) \<and>
      u ''age'' \<in> set (map (\<lambda>c. lower e (strip c)) h))"
    by (simp add: required_def header_names_def)
  have d: "import_csv_stream e [] con = (Inl HeaderError, con)"
    by (simp add: import_csv_stream_def required_def header_names_def)
  from a b have "(fst (import_csv_stream e recs con) = Inl HeaderError) =
     (\<not> set required \<subseteq> set (header_names e recs))"
    by (metis fst_conv)
  with b c d show ?thesis
    by blast
qed

theorem header_error_iff_witness:
  "import_csv_stream env0 no_age_column db0 = (Inl HeaderError, db0)"
proof -
  have h: "\<not> set required \<subseteq> set (header_names env0 no_age_column)"
    by (simp add: no_age_column_def import_defs str_defs)
  show ?thesis
    by (rule header_error_iff [where e = env0 and recs = no_age_column and con = db0,
          THEN conjunct2, THEN conjunct1, rule_format, OF h])
qed

subsection \<open>Blank lines\<close>

text \<open>
  C10. A blank line among the data rows has no outcome: the result and the table of a call
  are those of the same records with every blank line left out, so the row numbers count
  the other records only. In \<open>blank_line_file\<close> the failing record is on line 4 of the
  input and is reported as row 3.
\<close>

theorem blank_lines_skipped:
  "import_csv_stream e (h # rows) con = import_csv_stream e (h # data_rows rows) con \<and>
   import_csv_stream e (h # pre @ [] # post) con = import_csv_stream e (h # pre @ post) con \<and>
   fst (import_csv_stream env0 blank_line_file db0) =
     Inr (1, [\<lparr>err_row = 3, err_msg = NameTooShort\<rparr>])"
proof -
  have a: "import_csv_stream e (h # rs) con = import_csv_stream e (h # data_rows rs) con"
    for rs
    by (simp add: import_csv_stream_def header_names_def for_rows_data_rows)
  have "data_rows (pre @ [] # post) = data_rows (pre @ post)"
    by (simp add: data_rows_def)
  with a [of "pre @ [] # post"] a [of "pre @ post"]
  have b: "import_csv_stream e (h # pre @ [] # post) con =
           import_csv_stream e (h # pre @ post) con"
    by simp
  have c: "fst (import_csv_stream env0 blank_line_file db0) =
     Inr (1, [\<lparr>err_row = 3, err_msg = NameTooShort\<rparr>])"
    by (simp add: blank_line_file_def import_defs str_defs row_defs re_defs int_defs
        loop_defs)
  from a b c show ?thesis
    by blast
qed

subsection \<open>The summary\<close>

text \<open>
  C7. With a complete header and a store that does not fail hard, the call returns a
  summary: the inserted count plus the number of failures is the number of data rows, the
  failures carry strictly increasing row numbers from 2 up to the number of the last data
  row (so a row has at most one failure, and the rows without one are the inserted ones:
  the table grows by the inserted count); a data row that does not pass validation has its
  failure under its own number, 2 plus the number of data rows before it; and without data
  rows the summary is \<open>(0, [])\<close> and the table is unchanged. The only errors that leave the call are \<open>HeaderError\<close> and
  \<open>StoreFault\<close>, the latter only when an \<^verbatim>\<open>INSERT\<close> fails hard.
\<close>

theorem one_outcome_per_row:
  "(set required \<subseteq> set (header_names e recs) \<and> (\<forall>j. \<not> store_fault e j) \<longrightarrow>
      (\<exists>ok errors con'.
         import_csv_stream e recs con = (Inr (ok, errors), con') \<and>
         ok + length errors = length (data_rows (tl recs)) \<and>
         sorted_wrt (<) (map err_row errors) \<and>
         (\<forall>x\<in>set errors. 2 \<le> err_row x \<and> err_row x < 2 + length (data_rows (tl recs))) \<and>
         length (customers con') = length (customers con) + ok)) \<and>
   (set required \<subseteq> set (header_names e (h # pre @ r # post)) \<and> (\<forall>j. \<not> store_fault e j) \<and>
    r \<noteq> [] \<and> \<not> passes_validation e (dict_row h r) \<longrightarrow>
      (\<exists>ok errors con' m.
         import_csv_stream e (h # pre @ r # post) con = (Inr (ok, errors), con') \<and>
         \<lparr>err_row = 2 + length (data_rows pre), err_msg = m\<rparr> \<in> set errors)) \<and>
   (set required \<subseteq> set (header_names e recs) \<and> data_rows (tl recs) = [] \<longrightarrow>
      import_csv_stream e recs con = (Inr (0, []), con)) \<and>
   (fst (import_csv_stream e recs con) = Inl StoreFault \<longrightarrow> (\<exists>j. store_fault e j))"
proof (intro conjI impI)
  assume a: "set required \<subseteq> set (header_names e recs) \<and> (\<forall>j. \<not> store_fault e j)"
  then have nf: "\<forall>j. \<not> store_fault e j"
    by simp
  from for_rows_summary [OF nf, of "hd recs" 2 "tl recs" 0 "[]" con]
  obtain ok' new con' where
    r: "for_rows e (hd recs) 2 (tl recs) (0, [], con) = Inr (ok', new, con')"
    and c: "ok' + length new = length (data_rows (tl recs))"
    and s: "sorted_wrt (<) (map err_row new)"
    and n: "\<forall>x\<in>set new. 2 \<le> err_row x \<and> err_row x < 2 + length (data_rows (tl recs))"
    and l: "length (customers con') = length (customers con) + ok'"
    by auto
  from a r have "import_csv_stream e recs con = (Inr (ok', new), con')"
    by (simp add: import_csv_stream_def)
  with c s n l show "\<exists>ok errors con'.
         import_csv_stream e recs con = (Inr (ok, errors), con') \<and>
         ok + length errors = length (data_rows (tl recs)) \<and>
         sorted_wrt (<) (map err_row errors) \<and>
         (\<forall>x\<in>set errors. 2 \<le> err_row x \<and> err_row x < 2 + length (data_rows (tl recs))) \<and>
         length (customers con') = length (customers con) + ok"
    by blast
next
  assume a: "set required \<subseteq> set (header_names e (h # pre @ r # post)) \<and>
    (\<forall>j. \<not> store_fault e j) \<and> r \<noteq> [] \<and> \<not> passes_validation e (dict_row h r)"
  then have nf: "\<forall>j. \<not> store_fault e j" and r: "r \<noteq> []"
    and inv: "\<not> passes_validation e (dict_row h r)"
    by simp_all
  from failing_row_number [OF nf r inv, of 2 pre post 0 "[]" con]
  obtain ok' errors' con' m where
    f: "for_rows e h 2 (pre @ r # post) (0, [], con) = Inr (ok', errors', con')"
    and e: "\<lparr>err_row = 2 + length (data_rows pre), err_msg = m\<rparr> \<in> set errors'"
    by blast
  from a f have "import_csv_stream e (h # pre @ r # post) con = (Inr (ok', errors'), con')"
    by (simp add: import_csv_stream_def)
  with e show "\<exists>ok errors con' m.
         import_csv_stream e (h # pre @ r # post) con = (Inr (ok, errors), con') \<and>
         \<lparr>err_row = 2 + length (data_rows pre), err_msg = m\<rparr> \<in> set errors"
    by blast
next
  assume a: "set required \<subseteq> set (header_names e recs) \<and> data_rows (tl recs) = []"
  have "for_rows e (hd recs) 2 (data_rows (tl recs)) (0, [], con) = Inr (0, [], con)"
    using a by simp
  then have "for_rows e (hd recs) 2 (tl recs) (0, [], con) = Inr (0, [], con)"
    by (simp only: for_rows_data_rows)
  with a show "import_csv_stream e recs con = (Inr (0, []), con)"
    by (simp add: import_csv_stream_def)
next
  assume a: "fst (import_csv_stream e recs con) = Inl StoreFault"
  show "\<exists>j. store_fault e j"
  proof (cases "for_rows e (hd recs) 2 (tl recs) (0, [], con)")
    case (Inl x)
    from for_rows_Inl [OF Inl] show ?thesis
      by simp
  next
    case (Inr st)
    with a show ?thesis
      by (cases st) (simp add: import_csv_stream_def split: if_splits)
  qed
qed

theorem one_outcome_per_row_witness:
  "(\<exists>ok errors con'.
      import_csv_stream env0 scenario db0 = (Inr (ok, errors), con') \<and>
      ok + length errors = 3 \<and> length (customers con') = ok) \<and>
   (\<exists>ok errors con' m.
      import_csv_stream env0 scenario db0 = (Inr (ok, errors), con') \<and>
      \<lparr>err_row = 3, err_msg = m\<rparr> \<in> set errors) \<and>
   import_csv_stream env0 [header0] db0 = (Inr (0, []), db0)"
proof -
  have h: "set required \<subseteq> set (header_names env0 scenario) \<and> (\<forall>j. \<not> store_fault env0 j)"
    by (simp add: scenario_def header0_def env0_def import_defs str_defs)
  have n: "length (data_rows (tl scenario)) = 3"
    by (simp add: scenario_def data_rows_def u_def)
  have k: "length (customers db0) = 0"
    by (simp add: db0_def)
  have h0: "set required \<subseteq> set (header_names env0 [header0]) \<and> data_rows (tl [header0]) = []"
    by (simp add: header0_def data_rows_def import_defs str_defs)
  have sc: "scenario = header0 # [alice] @ [u ''Bob'', u ''bob@example'', u ''25''] #
      [[u ''Cara'', u ''cara@example.com'', u ''200'']]"
    by (simp add: scenario_def alice_def)
  have inv: "\<not> passes_validation env0 (dict_row header0 [u ''Bob'', u ''bob@example'', u ''25''])"
    by (simp add: passes_validation_def str_defs row_defs re_defs)
  have h1: "set required \<subseteq> set (header_names env0 (header0 # [alice] @
      [u ''Bob'', u ''bob@example'', u ''25''] #
      [[u ''Cara'', u ''cara@example.com'', u ''200'']])) \<and>
    (\<forall>j. \<not> store_fault env0 j) \<and> [u ''Bob'', u ''bob@example'', u ''25''] \<noteq> [] \<and>
    \<not> passes_validation env0 (dict_row header0 [u ''Bob'', u ''bob@example'', u ''25''])"
    using h inv unfolding sc by simp
  have j: "2 + length (data_rows [alice]) = 3"
    by (simp add: data_rows_def alice_def)
  note v = one_outcome_per_row [where e = env0 and recs = scenario and con = db0,
    THEN conjunct1, rule_format, OF h]
  note x = one_outcome_per_row [where e = env0 and h = header0 and pre = "[alice]"
    and r = "[u ''Bob'', u ''bob@example'', u ''25'']"
    and post = "[[u ''Cara'', u ''cara@example.com'', u ''200'']]" and con = db0,
    THEN conjunct2, THEN conjunct1, rule_format, OF h1]
  note w = one_outcome_per_row [where e = env0 and recs = "[header0]" and con = db0,
    THEN conjunct2, THEN conjunct2, THEN conjunct1, rule_format, OF h0]
  from v n k have w1: "\<exists>ok errors con'.
      import_csv_stream env0 scenario db0 = (Inr (ok, errors), con') \<and>
      ok + length errors = 3 \<and> length (customers con') = ok"
    by (metis add_0)
  from x have w2: "\<exists>ok errors con' m.
      import_csv_stream env0 scenario db0 = (Inr (ok, errors), con') \<and>
      \<lparr>err_row = 3, err_msg = m\<rparr> \<in> set errors"
    unfolding j sc [symmetric] .
  from w1 w2 w show ?thesis
    by blast
qed

subsection \<open>Rows of the reader\<close>

lemma fold_restval_other:
  "k \<notin> set ks \<Longrightarrow> fold (\<lambda>key d. d(key \<mapsto> None)) ks d k = d k"
  by (induction ks arbitrary: d) auto

lemma fold_fields_other:
  "k \<notin> fst ` set kvs \<Longrightarrow> fold (\<lambda>(key, v) d. d(key \<mapsto> Some v)) kvs d k = d k"
  by (induction kvs arbitrary: d) auto

lemma dict_row_absent: "k \<notin> set f \<Longrightarrow> dict_row f r k = None"
proof -
  assume k: "k \<notin> set f"
  then have "k \<notin> set (drop (length r) f)"
    by (meson in_set_dropD)
  moreover from k have "k \<notin> fst ` set (zip f r)"
    by (auto dest: set_zip_leftD)
  ultimately show ?thesis
    by (simp add: dict_row_def fold_restval_other fold_fields_other)
qed

lemma loop_body_no_name_key:
  "u ''name'' \<notin> set f \<Longrightarrow>
   loop_body e i (dict_row f r) (ok, errors, con) =
     Inr (ok, errors @ [\<lparr>err_row = i, err_msg = NameTooShort\<rparr>], con)"
  by (simp add: loop_body_def get_or_empty_def dict_row_absent strip_def)

lemma for_rows_no_name_key:
  "u ''name'' \<notin> set f \<Longrightarrow>
   for_rows e f i rs (ok, errors, con) =
     Inr (ok,
          errors @ map (\<lambda>k. \<lparr>err_row = k, err_msg = NameTooShort\<rparr>)
                     [i..<i + length (data_rows rs)],
          con)"
proof (induction rs arbitrary: i errors)
  case Nil
  then show ?case
    by (simp add: data_rows_def)
next
  case (Cons r rs)
  show ?case
  proof (cases "r = []")
    case True
    with Cons show ?thesis
      by (simp add: data_rows_def)
  next
    case False
    have "[i..<i + Suc (length (data_rows rs))] = i # [Suc i..<Suc i + length (data_rows rs)]"
      using upt_conv_Cons [of i "i + Suc (length (data_rows rs))"] by simp
    with False Cons show ?thesis
      by (simp add: data_rows_def loop_body_no_name_key)
  qed
qed

subsection \<open>The table\<close>

lemma loop_body_duplicate:
  "passes_validation e row \<Longrightarrow> \<not> store_fault e i \<Longrightarrow>
   lower e (strip (get_or_empty row (u ''email''))) \<in> emails con \<Longrightarrow>
   loop_body e i row (ok, errors, con) =
     Inr (ok, errors @ [\<lparr>err_row = i, err_msg = DuplicateEmail\<rparr>], con)"
  by (simp add: loop_body_valid insert_values_def execute_insert_cases)

lemma loop_body_fault:
  "passes_validation e row \<Longrightarrow> store_fault e i \<Longrightarrow>
   loop_body e i row (ok, errors, con) = Inl StoreFault"
  by (simp add: loop_body_valid insert_values_def execute_insert_cases)

lemma loop_body_insert:
  "passes_validation e row \<Longrightarrow> \<not> store_fault e i \<Longrightarrow>
   lower e (strip (get_or_empty row (u ''email''))) \<notin> emails con \<Longrightarrow>
   \<exists>con'. execute_insert False con (insert_values e i row) = Inr con' \<and>
          loop_body e i row (ok, errors, con) = Inr (Suc ok, errors, con') \<and>
          lower e (strip (get_or_empty row (u ''email''))) \<in> emails con' \<and>
          length (customers con') = Suc (length (customers con))"
  by (simp add: loop_body_valid insert_values_def execute_insert_cases emails_def)

lemma loop_body_email_stored:
  assumes "passes_validation e row" and "\<not> store_fault e i"
  shows "\<exists>ok' errors' con'.
           loop_body e i row (ok, errors, con) = Inr (ok', errors', con') \<and>
           lower e (strip (get_or_empty row (u ''email''))) \<in> emails con'"
proof (cases "lower e (strip (get_or_empty row (u ''email''))) \<in> emails con")
  case True
  with loop_body_duplicate [OF assms True] show ?thesis
    by blast
next
  case False
  from loop_body_insert [OF assms False] show ?thesis
    by blast
qed

lemma loop_body_distinct:
  "loop_body e i row (ok, errors, con) = Inr (ok', errors', con') \<Longrightarrow>
   distinct (map c_email (customers con)) \<Longrightarrow> distinct (map c_email (customers con'))"
  by (auto simp: loop_body_def execute_insert_def Let_def
           split: option.splits if_splits sum.splits sqlite_error.splits)

lemma for_rows_distinct:
  "for_rows e f i rs st = Inr st' \<Longrightarrow>
   distinct (map c_email (customers (snd (snd st)))) \<Longrightarrow>
   distinct (map c_email (customers (snd (snd st'))))"
proof (induction e f i rs st rule: for_rows.induct)
  case (1 e fieldnames i st)
  then show ?case
    by simp
next
  case (2 e fieldnames i r rs st)
  show ?case
  proof (cases "r = []")
    case True
    with 2 show ?thesis
      by simp
  next
    case False
    with "2.prems" obtain st1 where
      s: "loop_body e i (dict_row fieldnames r) st = Inr st1"
      and t: "for_rows e fieldnames (Suc i) rs st1 = Inr st'"
      by (auto split: sum.splits)
    from s "2.prems"(2) have "distinct (map c_email (customers (snd (snd st1))))"
      by (cases st; cases st1) (auto dest: loop_body_distinct)
    with "2.IH"(2) [OF False s t] show ?thesis
      by simp
  qed
qed

subsection \<open>Duplicate emails and hard store faults\<close>

text \<open>
  C2. For a row that passes validation: when the store already holds its email (from an
  earlier call or from an earlier row of the file) and the \<^verbatim>\<open>INSERT\<close> does not fail hard,
  the loop records \<open>DuplicateEmail\<close> for the row, leaves the count and the table as they
  are and goes on with the next row; when the same record comes twice in a row and its
  email is new, the first one is inserted and the second one is reported
  \<open>DuplicateEmail\<close>; when the \<^verbatim>\<open>INSERT\<close> fails hard, the loop stops with
  \<open>StoreFault\<close>, and the call then fails with that error and leaves the table as it was
  before the call.
\<close>

theorem duplicate_email_continues:
  "(r \<noteq> [] \<and> passes_validation e (dict_row f r) \<and> \<not> store_fault e i \<and>
    lower e (strip (get_or_empty (dict_row f r) (u ''email''))) \<in> emails con \<longrightarrow>
      for_rows e f i (r # rs) (ok, errors, con) =
      for_rows e f (Suc i) rs
        (ok, errors @ [\<lparr>err_row = i, err_msg = DuplicateEmail\<rparr>], con)) \<and>
   (r \<noteq> [] \<and> passes_validation e (dict_row f r) \<and> \<not> store_fault e i \<and>
    \<not> store_fault e (Suc i) \<and>
    lower e (strip (get_or_empty (dict_row f r) (u ''email''))) \<notin> emails con \<longrightarrow>
      (\<exists>con'. execute_insert False con (insert_values e i (dict_row f r)) = Inr con' \<and>
         for_rows e f i (r # r # rs) (ok, errors, con) =
         for_rows e f (Suc (Suc i)) rs
           (Suc ok, errors @ [\<lparr>err_row = Suc i, err_msg = DuplicateEmail\<rparr>], con'))) \<and>
   (r \<noteq> [] \<and> passes_validation e (dict_row f r) \<and> store_fault e i \<longrightarrow>
      for_rows e f i (r # rs) (ok, errors, con) = Inl StoreFault) \<and>
   (set required \<subseteq> set (header_names e recs) \<and>
    for_rows e (hd recs) 2 (tl recs) (0, [], con) = Inl StoreFault \<longrightarrow>
      import_csv_stream e recs con = (Inl StoreFault, con))"
proof (intro conjI impI)
  assume "r \<noteq> [] \<and> passes_validation e (dict_row f r) \<and> \<not> store_fault e i \<and>
    lower e (strip (get_or_empty (dict_row f r) (u ''email''))) \<in> emails con"
  then show "for_rows e f i (r # rs) (ok, errors, con) =
      for_rows e f (Suc i) rs
        (ok, errors @ [\<lparr>err_row = i, err_msg = DuplicateEmail\<rparr>], con)"
    by (simp add: loop_body_duplicate)
next
  assume a: "r \<noteq> [] \<and> passes_validation e (dict_row f r) \<and> \<not> store_fault e i \<and>
    \<not> store_fault e (Suc i) \<and>
    lower e (strip (get_or_empty (dict_row f r) (u ''email''))) \<notin> emails con"
  then obtain con' where
    x: "execute_insert False con (insert_values e i (dict_row f r)) = Inr con'"
    and s: "loop_body e i (dict_row f r) (ok, errors, con) = Inr (Suc ok, errors, con')"
    and m: "lower e (strip (get_or_empty (dict_row f r) (u ''email''))) \<in> emails con'"
    using loop_body_insert [where row = "dict_row f r" and e = e and i = i and con = con
      and ok = ok and errors = errors] by blast
  from a m have "loop_body e (Suc i) (dict_row f r) (Suc ok, errors, con') =
      Inr (Suc ok, errors @ [\<lparr>err_row = Suc i, err_msg = DuplicateEmail\<rparr>], con')"
    by (simp add: loop_body_duplicate)
  with a s have "for_rows e f i (r # r # rs) (ok, errors, con) =
         for_rows e f (Suc (Suc i)) rs
           (Suc ok, errors @ [\<lparr>err_row = Suc i, err_msg = DuplicateEmail\<rparr>], con')"
    by simp
  with x show "\<exists>con'. execute_insert False con (insert_values e i (dict_row f r)) = Inr con' \<and>
         for_rows e f i (r # r # rs) (ok, errors, con) =
         for_rows e f (Suc (Suc i)) rs
           (Suc ok, errors @ [\<lparr>err_row = Suc i, err_msg = DuplicateEmail\<rparr>], con')"
    by blast
next
  assume "r \<noteq> [] \<and> passes_validation e (dict_row f r) \<and> store_fault e i"
  then show "for_rows e f i (r # rs) (ok, errors, con) = Inl StoreFault"
    by (simp add: loop_body_fault)
next
  assume "set required \<subseteq> set (header_names e recs) \<and>
    for_rows e (hd recs) 2 (tl recs) (0, [], con) = Inl StoreFault"
  then show "import_csv_stream e recs con = (Inl StoreFault, con)"
    by (simp add: import_csv_stream_def)
qed

theorem duplicate_email_continues_witness:
  "for_rows env0 header0 2 [alice] (0, [], db_alice) =
     Inr (0, [\<lparr>err_row = 2, err_msg = DuplicateEmail\<rparr>], db_alice) \<and>
   (\<exists>con'. execute_insert False db0 (insert_values env0 2 (dict_row header0 alice)) = Inr con' \<and>
      for_rows env0 header0 2 [alice, alice] (0, [], db0) =
        Inr (1, [\<lparr>err_row = 3, err_msg = DuplicateEmail\<rparr>], con')) \<and>
   for_rows (env_fault 2) header0 2 [alice] (0, [], db0) = Inl StoreFault \<and>
   import_csv_stream (env_fault 2) [header0, alice] db0 = (Inl StoreFault, db0)"
proof -
  have p: "passes_validation env0 (dict_row header0 alice)"
    by (simp add: passes_validation_def alice_def str_defs row_defs re_defs int_defs)
  have m: "lower env0 (strip (get_or_empty (dict_row header0 alice) (u ''email''))) =
           u ''alice@example.com''"
    by (simp add: alice_def str_defs row_defs)
  have n: "alice \<noteq> []"
    by (simp add: alice_def)
  have h1: "alice \<noteq> [] \<and> passes_validation env0 (dict_row header0 alice) \<and>
      \<not> store_fault env0 2 \<and>
      lower env0 (strip (get_or_empty (dict_row header0 alice) (u ''email''))) \<in> emails db_alice"
    using p n by (simp add: m) (simp add: emails_def db_alice_def env0_def)
  have h2: "alice \<noteq> [] \<and> passes_validation env0 (dict_row header0 alice) \<and>
      \<not> store_fault env0 2 \<and> \<not> store_fault env0 (Suc 2) \<and>
      lower env0 (strip (get_or_empty (dict_row header0 alice) (u ''email''))) \<notin> emails db0"
    using p n by (simp add: emails_def db0_def env0_def)
  have pf: "passes_validation (env_fault 2) (dict_row header0 alice)"
    by (simp add: passes_validation_def alice_def str_defs row_defs re_defs int_defs)
  have h3: "alice \<noteq> [] \<and> passes_validation (env_fault 2) (dict_row header0 alice) \<and>
      store_fault (env_fault 2) 2"
    using pf n by (simp add: env_fault_def)
  note v1 = duplicate_email_continues [where r = alice and f = header0 and e = env0
    and i = 2 and rs = "[]" and ok = 0 and errors = "[]" and con = db_alice,
    THEN conjunct1, rule_format, OF h1]
  note v2 = duplicate_email_continues [where r = alice and f = header0 and e = env0
    and i = 2 and rs = "[]" and ok = 0 and errors = "[]" and con = db0,
    THEN conjunct2, THEN conjunct1, rule_format, OF h2]
  note v3 = duplicate_email_continues [where r = alice and f = header0 and e = "env_fault 2"
    and i = 2 and rs = "[]" and ok = 0 and errors = "[]" and con = db0,
    THEN conjunct2, THEN conjunct2, THEN conjunct1, rule_format, OF h3]
  have h4: "set required \<subseteq> set (header_names (env_fault 2) [header0, alice]) \<and>
      for_rows (env_fault 2) (hd [header0, alice]) 2 (tl [header0, alice]) (0, [], db0) =
        Inl StoreFault"
    using v3 by (simp add: header0_def import_defs str_defs)
  note v4 = duplicate_email_continues [where recs = "[header0, alice]"
    and e = "env_fault 2" and con = db0,
    THEN conjunct2, THEN conjunct2, THEN conjunct2, rule_format, OF h4]
  have e3: "Suc (Suc 2) = 4" "Suc 2 = 3" "Suc 0 = 1"
    by simp_all
  from v1 have w1: "for_rows env0 header0 2 [alice] (0, [], db_alice) =
     Inr (0, [\<lparr>err_row = 2, err_msg = DuplicateEmail\<rparr>], db_alice)"
    unfolding for_rows.simps(1) append_Nil .
  from v2 have w2: "\<exists>con'.
      execute_insert False db0 (insert_values env0 2 (dict_row header0 alice)) = Inr con' \<and>
      for_rows env0 header0 2 [alice, alice] (0, [], db0) =
        Inr (1, [\<lparr>err_row = 3, err_msg = DuplicateEmail\<rparr>], con')"
    unfolding for_rows.simps(1) append_Nil e3 .
  from w1 w2 v3 v4 show ?thesis
    by blast
qed

subsection \<open>Emails are compared as they are stored\<close>

text \<open>
  C9 as stated fails: in \<open>same_email_file\<close> the two rows have the same email after
  trimming and lower-casing, the first one is inserted, and the second one is reported
  \<open>NameTooShort\<close>, not \<open>DuplicateEmail\<close>, because its name is checked before the store
  sees its email.
\<close>

theorem same_email_short_name:
  "lower env0 (strip (u ''Alice@Example.com'')) = lower env0 (strip (u '' alice@example.com'')) \<and>
   fst (import_csv_stream env0 same_email_file db0) =
     Inr (1, [\<lparr>err_row = 3, err_msg = NameTooShort\<rparr>])"
  by (simp add: same_email_file_def import_defs str_defs row_defs re_defs int_defs loop_defs)

text \<open>
  C9, amended. Duplicates are found on the trimmed, lower-cased email, among the rows that
  pass validation. When two such rows of a file have the same normalized email and no
  \<^verbatim>\<open>INSERT\<close> fails hard, the later one is reported \<open>DuplicateEmail\<close> whatever rows stand
  between them; a row that passes validation and whose normalized email the table holds
  already is reported \<open>DuplicateEmail\<close> and changes nothing; a row that does not pass
  validation is reported with a validation failure, never \<open>DuplicateEmail\<close>, whatever its
  email and whatever the table holds; and a table without two equal emails has none after a
  call, so at most one of the rows with one normalized email is inserted. The normalized
  email is the one that \<^verbatim>\<open>str.lower\<close> gives, for every Unicode database.
\<close>

theorem duplicate_on_normalized_email:
  "(r1 \<noteq> [] \<and> r2 \<noteq> [] \<and> passes_validation e (dict_row f r1) \<and>
    passes_validation e (dict_row f r2) \<and>
    lower e (strip (get_or_empty (dict_row f r1) (u ''email''))) =
    lower e (strip (get_or_empty (dict_row f r2) (u ''email''))) \<and>
    (\<forall>j. \<not> store_fault e j) \<longrightarrow>
      (\<exists>ok1 errors1 con1.
         for_rows e f i (r1 # mid) (ok, errors, con) = Inr (ok1, errors1, con1) \<and>
         for_rows e f i (r1 # mid @ r2 # post) (ok, errors, con) =
         for_rows e f (Suc (Suc (i + length (data_rows mid)))) post
           (ok1,
            errors1 @ [\<lparr>err_row = Suc (i + length (data_rows mid)),
                        err_msg = DuplicateEmail\<rparr>],
            con1))) \<and>
   (passes_validation e row \<and> \<not> store_fault e i \<and>
    lower e (strip (get_or_empty row (u ''email''))) \<in> emails con \<longrightarrow>
      loop_body e i row (ok, errors, con) =
        Inr (ok, errors @ [\<lparr>err_row = i, err_msg = DuplicateEmail\<rparr>], con)) \<and>
   (\<not> passes_validation e row \<longrightarrow>
      (\<exists>m. m \<noteq> DuplicateEmail \<and>
           loop_body e i row (ok, errors, con) =
             Inr (ok, errors @ [\<lparr>err_row = i, err_msg = m\<rparr>], con))) \<and>
   (distinct (map c_email (customers con)) \<longrightarrow>
      distinct (map c_email (customers (snd (import_csv_stream e recs con)))))"
proof (intro conjI impI)
  assume a: "r1 \<noteq> [] \<and> r2 \<noteq> [] \<and> passes_validation e (dict_row f r1) \<and>
    passes_validation e (dict_row f r2) \<and>
    lower e (strip (get_or_empty (dict_row f r1) (u ''email''))) =
    lower e (strip (get_or_empty (dict_row f r2) (u ''email''))) \<and>
    (\<forall>j. \<not> store_fault e j)"
  then have nf: "\<forall>j. \<not> store_fault e j" and nfi: "\<not> store_fault e i"
    by simp_all
  define m where "m = lower e (strip (get_or_empty (dict_row f r2) (u ''email'')))"
  from a have p1: "passes_validation e (dict_row f r1)"
    by simp
  from loop_body_email_stored [OF p1 nfi, of ok errors con] a
  obtain oka errorsa cona where
    s: "loop_body e i (dict_row f r1) (ok, errors, con) = Inr (oka, errorsa, cona)"
    and ma: "m \<in> emails cona"
    unfolding m_def by auto
  from for_rows_summary [OF nf, of f "Suc i" mid oka errorsa cona]
  obtain ok1 new con1 where
    t: "for_rows e f (Suc i) mid (oka, errorsa, cona) = Inr (ok1, errorsa @ new, con1)"
    and sub: "emails cona \<subseteq> emails con1"
    by blast
  from a s t have u1: "for_rows e f i (r1 # mid) (ok, errors, con) =
      Inr (ok1, errorsa @ new, con1)"
    by simp
  from ma sub have m1: "m \<in> emails con1"
    by blast
  have d: "i + length (data_rows (r1 # mid)) = Suc (i + length (data_rows mid))"
    using a by (simp add: data_rows_def)
  have "for_rows e f i ((r1 # mid) @ r2 # post) (ok, errors, con) =
      for_rows e f (Suc (i + length (data_rows mid))) (r2 # post) (ok1, errorsa @ new, con1)"
    by (simp only: for_rows_append u1 d sum.case)
  moreover have "loop_body e (Suc (i + length (data_rows mid))) (dict_row f r2)
      (ok1, errorsa @ new, con1) =
      Inr (ok1, (errorsa @ new) @ [\<lparr>err_row = Suc (i + length (data_rows mid)),
                                   err_msg = DuplicateEmail\<rparr>], con1)"
    using a m1 nf unfolding m_def by (intro loop_body_duplicate) simp_all
  ultimately have "for_rows e f i (r1 # mid @ r2 # post) (ok, errors, con) =
      for_rows e f (Suc (Suc (i + length (data_rows mid)))) post
        (ok1, (errorsa @ new) @ [\<lparr>err_row = Suc (i + length (data_rows mid)),
                                   err_msg = DuplicateEmail\<rparr>], con1)"
    using a by simp
  with u1 show "\<exists>ok1 errors1 con1.
         for_rows e f i (r1 # mid) (ok, errors, con) = Inr (ok1, errors1, con1) \<and>
         for_rows e f i (r1 # mid @ r2 # post) (ok, errors, con) =
         for_rows e f (Suc (Suc (i + length (data_rows mid)))) post
           (ok1,
            errors1 @ [\<lparr>err_row = Suc (i + length (data_rows mid)),
                        err_msg = DuplicateEmail\<rparr>],
            con1)"
    by blast
next
  assume "passes_validation e row \<and> \<not> store_fault e i \<and>
    lower e (strip (get_or_empty row (u ''email''))) \<in> emails con"
  then show "loop_body e i row (ok, errors, con) =
        Inr (ok, errors @ [\<lparr>err_row = i, err_msg = DuplicateEmail\<rparr>], con)"
    by (simp add: loop_body_duplicate)
next
  assume "\<not> passes_validation e row"
  then show "\<exists>m. m \<noteq> DuplicateEmail \<and>
           loop_body e i row (ok, errors, con) =
             Inr (ok, errors @ [\<lparr>err_row = i, err_msg = m\<rparr>], con)"
    by (rule loop_body_invalid)
next
  assume d: "distinct (map c_email (customers con))"
  show "distinct (map c_email (customers (snd (import_csv_stream e recs con))))"
  proof (cases "for_rows e (hd recs) 2 (tl recs) (0, [], con)")
    case (Inl x)
    with d show ?thesis
      by (simp add: import_csv_stream_def)
  next
    case (Inr st)
    from for_rows_distinct [OF Inr] d
    have "distinct (map c_email (customers (snd (snd st))))"
      by simp
    with Inr d show ?thesis
      by (cases st) (simp add: import_csv_stream_def)
  qed
qed

theorem duplicate_on_normalized_email_witness:
  "(\<exists>ok1 errors1 con1.
      for_rows env0 header0 2 [sofia, bob] (0, [], db0) = Inr (ok1, errors1, con1) \<and>
      for_rows env0 header0 2 [sofia, bob, sofia_lower] (0, [], db0) =
        Inr (ok1, errors1 @ [\<lparr>err_row = 4, err_msg = DuplicateEmail\<rparr>], con1)) \<and>
   loop_body env0 2 (dict_row header0 alicia) (0, [], db_alice) =
     Inr (0, [\<lparr>err_row = 2, err_msg = DuplicateEmail\<rparr>], db_alice) \<and>
   (\<exists>m. m \<noteq> DuplicateEmail \<and>
        loop_body env0 2 (row_of ''A'' '' alice@example.com'' ''30'') (0, [], db_alice) =
          Inr (0, [\<lparr>err_row = 2, err_msg = m\<rparr>], db_alice)) \<and>
   distinct (map c_email (customers (snd (import_csv_stream env0 [header0, alice] db_alice))))"
proof -
  have p1: "passes_validation env0 (dict_row header0 sofia)"
    by (simp add: passes_validation_def sofia_def str_defs row_defs re_defs int_defs
        handle_capital_sigma_def env0_def)
  have p2: "passes_validation env0 (dict_row header0 sofia_lower)"
    by (simp add: passes_validation_def sofia_lower_def str_defs row_defs re_defs int_defs
        handle_capital_sigma_def env0_def)
  have p3: "passes_validation env0 (dict_row header0 alicia)"
    by (simp add: passes_validation_def alicia_def str_defs row_defs re_defs int_defs)
  have p4: "\<not> passes_validation env0 (row_of ''A'' '' alice@example.com'' ''30'')"
    by (simp add: passes_validation_def str_defs row_defs)
  have m1: "lower env0 (strip (get_or_empty (dict_row header0 sofia) (u ''email''))) =
            [963, 945] @ u ''@example.com''"
    by (simp add: sofia_def str_defs row_defs handle_capital_sigma_def env0_def)
  have m2: "lower env0 (strip (get_or_empty (dict_row header0 sofia_lower) (u ''email''))) =
            [963, 945] @ u ''@example.com''"
    by (simp add: sofia_lower_def str_defs row_defs handle_capital_sigma_def env0_def)
  have m3: "lower env0 (strip (get_or_empty (dict_row header0 alicia) (u ''email''))) =
            u ''alice@example.com''"
    by (simp add: alicia_def str_defs row_defs)
  have n: "sofia \<noteq> []" "sofia_lower \<noteq> []"
    by (simp_all add: sofia_def sofia_lower_def)
  have h1: "sofia \<noteq> [] \<and> sofia_lower \<noteq> [] \<and> passes_validation env0 (dict_row header0 sofia) \<and>
    passes_validation env0 (dict_row header0 sofia_lower) \<and>
    lower env0 (strip (get_or_empty (dict_row header0 sofia) (u ''email''))) =
    lower env0 (strip (get_or_empty (dict_row header0 sofia_lower) (u ''email''))) \<and>
    (\<forall>j. \<not> store_fault env0 j)"
    using p1 p2 n by (simp only: m1 m2) (simp add: env0_def)
  have h2: "passes_validation env0 (dict_row header0 alicia) \<and> \<not> store_fault env0 2 \<and>
    lower env0 (strip (get_or_empty (dict_row header0 alicia) (u ''email''))) \<in> emails db_alice"
    using p3 by (simp only: m3) (simp add: emails_def db_alice_def env0_def)
  have h4: "distinct (map c_email (customers db_alice))"
    by (simp add: db_alice_def)
  have k: "length (data_rows [bob]) = 1"
    by (simp add: data_rows_def bob_def)
  note v1 = duplicate_on_normalized_email [where ?r1.0 = sofia and ?r2.0 = sofia_lower
    and f = header0 and e = env0 and i = 2 and mid = "[bob]" and post = "[]" and ok = 0
    and errors = "[]" and con = db0, THEN conjunct1, rule_format, OF h1]
  note v2 = duplicate_on_normalized_email [where row = "dict_row header0 alicia"
    and e = env0 and i = 2 and ok = 0 and errors = "[]" and con = db_alice,
    THEN conjunct2, THEN conjunct1, rule_format, OF h2]
  note v3 = duplicate_on_normalized_email [
    where row = "row_of ''A'' '' alice@example.com'' ''30''"
    and e = env0 and i = 2 and ok = 0 and errors = "[]" and con = db_alice,
    THEN conjunct2, THEN conjunct2, THEN conjunct1, rule_format, OF p4]
  note v4 = duplicate_on_normalized_email [where con = db_alice and e = env0
    and recs = "[header0, alice]",
    THEN conjunct2, THEN conjunct2, THEN conjunct2, rule_format, OF h4]
  from v1 have w1: "\<exists>ok1 errors1 con1.
      for_rows env0 header0 2 [sofia, bob] (0, [], db0) = Inr (ok1, errors1, con1) \<and>
      for_rows env0 header0 2 [sofia, bob, sofia_lower] (0, [], db0) =
        Inr (ok1, errors1 @ [\<lparr>err_row = 4, err_msg = DuplicateEmail\<rparr>], con1)"
    by (simp add: k)
  from v2 have w2: "loop_body env0 2 (dict_row header0 alicia) (0, [], db_alice) =
     Inr (0, [\<lparr>err_row = 2, err_msg = DuplicateEmail\<rparr>], db_alice)"
    unfolding append_Nil .
  from v3 have w3: "\<exists>m. m \<noteq> DuplicateEmail \<and>
        loop_body env0 2 (row_of ''A'' '' alice@example.com'' ''30'') (0, [], db_alice) =
          Inr (0, [\<lparr>err_row = 2, err_msg = m\<rparr>], db_alice)"
    unfolding append_Nil .
  from w1 w2 w3 v4 show ?thesis
    by blast
qed

subsection \<open>Header names and keys of the rows\<close>

lemma header_without_name_key:
  assumes "u ''name'' \<notin> set h" and "set required \<subseteq> set (header_names e (h # rows))"
  shows "import_csv_stream e (h # rows) con =
           (Inr (0, map (\<lambda>k. \<lparr>err_row = k, err_msg = NameTooShort\<rparr>)
                      [2..<2 + length (data_rows rows)]), con)"
  using assms(2) for_rows_no_name_key [OF assms(1), of e 2 rows 0 "[]" con]
  by (simp add: import_csv_stream_def)

text \<open>
  C5 does not hold of the code. The header check compares the trimmed, lower-cased names,
  but the rows of \<^verbatim>\<open>DictReader\<close> are keyed by the names as the header writes them and the
  loop reads the keys \<^verbatim>\<open>"name"\<close>, \<^verbatim>\<open>"email"\<close> and \<^verbatim>\<open>"age"\<close>. Under the header
  \<^verbatim>\<open>Name,Email,Age\<close> the header check passes, every lookup finds nothing, and the valid
  row of \<open>capital_header_file\<close> is reported \<open>NameTooShort\<close>; under the lower-case header
  the same row is imported.
\<close>

theorem capital_header_rows_rejected:
  "import_csv_stream env0 capital_header_file db0 =
     (Inr (0, [\<lparr>err_row = 2, err_msg = NameTooShort\<rparr>]), db0) \<and>
   fst (import_csv_stream env0 [header0, alice] db0) = Inr (1, [])"
proof -
  have n: "u ''name'' \<notin> set [u ''Name'', u ''Email'', u ''Age'']"
    by (simp add: u_def)
  have r: "set required \<subseteq> set (header_names env0 ([u ''Name'', u ''Email'', u ''Age''] # [alice]))"
    by (simp add: import_defs str_defs)
  have d: "[2..<2 + length (data_rows [alice])] = [2]"
    by (simp add: data_rows_def alice_def)
  have "import_csv_stream env0 capital_header_file db0 =
     (Inr (0, [\<lparr>err_row = 2, err_msg = NameTooShort\<rparr>]), db0)"
    using header_without_name_key [OF n r, of db0]
    by (simp only: d capital_header_file_def list.map)
  moreover have "fst (import_csv_stream env0 [header0, alice] db0) = Inr (1, [])"
    by (simp add: alice_def import_defs str_defs row_defs re_defs int_defs loop_defs)
  ultimately show ?thesis
    by blast
qed

subsection \<open>A byte-order mark\<close>

lemma strip_keeps_head: "\<not> isspace c \<Longrightarrow> \<exists>t. strip (c # s) = c # t"
  by (simp add: strip_def dropWhile_append3)

lemma bom_name_not_required: "lower e (strip (65279 # n)) \<notin> set required"
proof -
  have "\<not> isspace 65279"
    by (simp add: isspace_def)
  from strip_keeps_head [OF this, of n] obtain t where "strip (65279 # n) = 65279 # t"
    by blast
  then have "lower e (strip (65279 # n)) = 65279 # do_lower e [65279] t"
    by (simp add: lower_def lower_full_def)
  then show ?thesis
    by (simp add: required_def u_def)
qed

text \<open>
  C6 as stated fails. The stream is decoded as \<^verbatim>\<open>utf-8\<close>, which keeps a byte-order mark as
  the character U+FEFF; it becomes the first character of the first header name, it is no
  whitespace, and the name is not \<^verbatim>\<open>name\<close> any more: \<open>bom_file\<close> is rejected with
  \<open>HeaderError\<close>, while the same records without the mark import one row.
\<close>

theorem bom_header_rejected:
  "import_csv_stream env0 bom_file db0 = (Inl HeaderError, db0) \<and>
   fst (import_csv_stream env0 [header0, alice] db0) = Inr (1, [])"
proof -
  have "import_csv_stream env0 bom_file db0 = (Inl HeaderError, db0)"
    by (simp add: bom_file_def import_defs str_defs)
  moreover have "fst (import_csv_stream env0 [header0, alice] db0) = Inr (1, [])"
    by (simp add: alice_def import_defs str_defs row_defs re_defs int_defs loop_defs)
  ultimately show ?thesis
    by blast
qed

text \<open>
  C6, amended. A stream whose first character is U+FEFF keeps it in the first header
  name, also after trimming and lower-casing; unless the other columns of the header supply
  all of \<^verbatim>\<open>name\<close>, \<^verbatim>\<open>email\<close> and \<^verbatim>\<open>age\<close>, the call fails with \<open>HeaderError\<close> and the
  table is unchanged.
\<close>

theorem bom_stays_in_first_name:
  "(\<not> set required \<subseteq> set (map (\<lambda>c. lower e (strip c)) rest) \<longrightarrow>
      import_csv_stream e (((65279 # n) # rest) # rows) con = (Inl HeaderError, con)) \<and>
   hd (lower e (strip (65279 # n))) = 65279"
proof
  show "\<not> set required \<subseteq> set (map (\<lambda>c. lower e (strip c)) rest) \<longrightarrow>
      import_csv_stream e (((65279 # n) # rest) # rows) con = (Inl HeaderError, con)"
  proof
    assume a: "\<not> set required \<subseteq> set (map (\<lambda>c. lower e (strip c)) rest)"
    have "\<not> set required \<subseteq> insert (lower e (strip (65279 # n)))
        (set (map (\<lambda>c. lower e (strip c)) rest))"
      using a bom_name_not_required [of e n] by blast
    then show "import_csv_stream e (((65279 # n) # rest) # rows) con = (Inl HeaderError, con)"
      by (simp add: import_csv_stream_def header_names_def)
  qed
next
  have "\<not> isspace 65279"
    by (simp add: isspace_def)
  from strip_keeps_head [OF this, of n] obtain t where "strip (65279 # n) = 65279 # t"
    by blast
  then show "hd (lower e (strip (65279 # n))) = 65279"
    by (simp add: lower_def lower_full_def)
qed

theorem bom_stays_in_first_name_witness:
  "import_csv_stream env0 bom_file db_alice = (Inl HeaderError, db_alice)"
proof -
  have h: "\<not> set required \<subseteq> set (map (\<lambda>c. lower env0 (strip c)) [u ''email'', u ''age''])"
    by (simp add: required_def str_defs)
  show ?thesis
    unfolding bom_file_def
    by (rule bom_stays_in_first_name [where n = "u ''name''" and rest = "[u ''email'', u ''age'']"
          and rows = "[alice]" and e = env0 and con = db_alice,
          THEN conjunct1, rule_format, OF h])
qed

subsection \<open>The export listing\<close>

lemma insort_key_snoc: "f a \<le> f x \<Longrightarrow> insort_key f a (ys @ [x]) = insort_key f a ys @ [x]"
  by (induction ys) auto

lemma sort_key_snoc:
  "\<forall>y\<in>set xs. f y \<le> f x \<Longrightarrow> sort_key f (xs @ [x]) = sort_key f xs @ [x]"
  by (induction xs) (auto simp: insort_key_snoc)

lemma fold_max_ge: "s \<le> fold max xs s \<and> (\<forall>y\<in>set xs. y \<le> fold max xs (s::nat))"
proof (induction xs arbitrary: s)
  case Nil
  show ?case
    by simp
next
  case (Cons a xs)
  from Cons [of "max a s"] show ?case
    by auto
qed

lemma export_rows_insert:
  assumes "execute_insert False con (n, m, a, t) = Inr con'"
  shows "export_rows con' = export_rows con @ [(n, m, a, t)]"
proof -
  define c where "c = \<lparr>c_id = Suc (fold max (map c_id (customers con)) (seq con)), c_name = n,
    c_email = m, c_age = a, c_created_at = t\<rparr>"
  from assms have con': "customers con' = customers con @ [c]"
    by (auto simp: execute_insert_cases c_def split: if_splits)
  have "\<forall>y\<in>set (customers con). c_id y \<le> c_id c"
  proof
    fix y
    assume "y \<in> set (customers con)"
    then have "c_id y \<in> set (map c_id (customers con))"
      by simp
    with fold_max_ge [of "seq con" "map c_id (customers con)"]
    have "c_id y \<le> fold max (map c_id (customers con)) (seq con)"
      by blast
    then show "c_id y \<le> c_id c"
      by (simp add: c_def)
  qed
  then have "sort_key c_id (customers con @ [c]) = sort_key c_id (customers con) @ [c]"
    by (rule sort_key_snoc)
  then show ?thesis
    by (simp add: export_rows_def con' c_def)
qed

subsection \<open>The format of \<^verbatim>\<open>created_at\<close>\<close>

lemma decimal_digits: "list_all isdigit (decimal n)"
proof (induction n rule: decimal.induct)
  case (1 n)
  show ?case
  proof (cases "n < 10")
    case True
    then show ?thesis
      by (subst decimal.simps) (simp add: isdigit_def)
  next
    case False
    have "n mod 10 < 10"
      by simp
    then have "isdigit (48 + n mod 10)"
      unfolding isdigit_def by linarith
    with False 1 show ?thesis
      by (subst decimal.simps) simp
  qed
qed

lemma decimal_length: "n < 10 ^ k \<Longrightarrow> 0 < k \<Longrightarrow> length (decimal n) \<le> k"
proof (induction n arbitrary: k rule: decimal.induct)
  case (1 n)
  show ?case
  proof (cases "n < 10")
    case True
    with 1(3) show ?thesis
      by (subst decimal.simps) simp
  next
    case False
    obtain j where k: "k = Suc j"
      using 1(3) by (cases k) auto
    have "0 < j"
    proof (rule ccontr)
      assume "\<not> 0 < j"
      with k 1(2) False show False
        by simp
    qed
    moreover have "n div 10 < 10 ^ j"
      using 1(2) k by (simp add: less_mult_imp_div_less mult.commute)
    ultimately have "length (decimal (n div 10)) \<le> j"
      using 1(1) [OF False] by blast
    with False k show ?thesis
      by (subst decimal.simps) simp
  qed
qed

lemma zpad_digits: "list_all isdigit (zpad w n)"
proof -
  have "list_all isdigit (replicate (w - length (decimal n)) 48)"
    by (simp add: list_all_iff isdigit_def)
  with decimal_digits [of n] show ?thesis
    by (simp add: zpad_def)
qed

lemma zpad_length: "n < 10 ^ w \<Longrightarrow> 0 < w \<Longrightarrow> length (zpad w n) = w"
  using decimal_length [of n w] by (simp add: zpad_def)

lemma zpad_2:
  assumes "n < 100"
  shows "\<exists>a b. zpad 2 n = [a, b] \<and> isdigit a \<and> isdigit b"
proof -
  have "length (zpad 2 n) = 2"
    using assms by (intro zpad_length) simp_all
  then obtain a b where "zpad 2 n = [a, b]"
    by (auto simp: numeral_2_eq_2 length_Suc_conv)
  with zpad_digits [of 2 n] show ?thesis
    by simp
qed

lemma zpad_4:
  assumes "n < 10000"
  shows "\<exists>a b c d. zpad 4 n = [a, b, c, d] \<and> isdigit a \<and> isdigit b \<and> isdigit c \<and> isdigit d"
proof -
  have "length (zpad 4 n) = Suc (Suc (Suc (Suc 0)))"
    using assms by (simp add: zpad_length)
  then obtain a b c d where "zpad 4 n = [a, b, c, d]"
    by (auto simp: length_Suc_conv)
  with zpad_digits [of 4 n] show ?thesis
    by simp
qed

lemma digits_to_nat_snoc: "digits_to_nat (xs @ [c]) = digits_to_nat xs * 10 + (c - 48)"
  by (simp add: digits_to_nat_def)

lemma digits_to_nat_decimal: "digits_to_nat (decimal n) = n"
proof (induction n rule: decimal.induct)
  case (1 n)
  show ?case
  proof (cases "n < 10")
    case True
    then show ?thesis
      by (subst decimal.simps) (simp add: digits_to_nat_def)
  next
    case False
    with 1 show ?thesis
      by (subst decimal.simps) (simp add: digits_to_nat_snoc)
  qed
qed

lemma digits_to_nat_zeros: "digits_to_nat (replicate k 48 @ xs) = digits_to_nat xs"
  by (induction k) (simp_all add: digits_to_nat_def)

lemma digits_to_nat_zpad: "digits_to_nat (zpad w n) = n"
  by (simp only: zpad_def digits_to_nat_zeros digits_to_nat_decimal)

lemma isoformat_shape:
  assumes "datetime_ok t"
  shows "iso8601_utc_seconds (isoformat_seconds t @ [90]) t"
proof -
  from assms have b: "dt_year t < 10000" "dt_month t < 100" "dt_day t < 100"
    "dt_hour t < 100" "dt_minute t < 100" "dt_second t < 100"
    by (simp_all add: datetime_ok_def)
  from assms have r: "1 \<le> dt_month t" "dt_month t \<le> 12" "1 \<le> dt_day t" "dt_day t \<le> 31"
    "dt_hour t < 24" "dt_minute t < 60" "dt_second t < 60"
    by (simp_all add: datetime_ok_def)
  from zpad_4 [OF b(1)] obtain y1 y2 y3 y4 where
    y: "zpad 4 (dt_year t) = [y1, y2, y3, y4]" "isdigit y1" "isdigit y2" "isdigit y3" "isdigit y4"
    by blast
  from zpad_2 [OF b(2)] obtain m1 m2 where
    m: "zpad 2 (dt_month t) = [m1, m2]" "isdigit m1" "isdigit m2"
    by blast
  from zpad_2 [OF b(3)] obtain d1 d2 where
    d: "zpad 2 (dt_day t) = [d1, d2]" "isdigit d1" "isdigit d2"
    by blast
  from zpad_2 [OF b(4)] obtain h1 h2 where
    h: "zpad 2 (dt_hour t) = [h1, h2]" "isdigit h1" "isdigit h2"
    by blast
  from zpad_2 [OF b(5)] obtain i1 i2 where
    i: "zpad 2 (dt_minute t) = [i1, i2]" "isdigit i1" "isdigit i2"
    by blast
  from zpad_2 [OF b(6)] obtain s1 s2 where
    s: "zpad 2 (dt_second t) = [s1, s2]" "isdigit s1" "isdigit s2"
    by blast
  have v: "digits_to_nat [y1, y2, y3, y4] = dt_year t" "digits_to_nat [m1, m2] = dt_month t"
    "digits_to_nat [d1, d2] = dt_day t" "digits_to_nat [h1, h2] = dt_hour t"
    "digits_to_nat [i1, i2] = dt_minute t" "digits_to_nat [s1, s2] = dt_second t"
    using digits_to_nat_zpad [of 4 "dt_year t"] digits_to_nat_zpad [of 2 "dt_month t"]
      digits_to_nat_zpad [of 2 "dt_day t"] digits_to_nat_zpad [of 2 "dt_hour t"]
      digits_to_nat_zpad [of 2 "dt_minute t"] digits_to_nat_zpad [of 2 "dt_second t"]
    by (simp_all only: y(1) m(1) d(1) h(1) i(1) s(1))
  have e: "isoformat_seconds t @ [90] =
      [y1, y2, y3, y4, 45, m1, m2, 45, d1, d2, 84, h1, h2, 58, i1, i2, 58, s1, s2, 90]"
    by (simp add: isoformat_seconds_def y(1) m(1) d(1) h(1) i(1) s(1))
  show ?thesis
    unfolding e iso8601_utc_seconds_def
    using y(2-) m(2-) d(2-) h(2-) i(2-) s(2-) v r by simp
qed

subsection \<open>Identifiers of the table\<close>

lemma export_rows_ordered:
  assumes "distinct (map c_id (customers con))"
  shows "\<exists>cs. export_rows con = map (\<lambda>c. (c_name c, c_email c, c_age c, c_created_at c)) cs \<and>
              set cs = set (customers con) \<and> sorted_wrt (<) (map c_id cs)"
proof -
  let ?cs = "sort_key c_id (customers con)"
  from assms have "distinct (customers con)" and "inj_on c_id (set (customers con))"
    by (simp_all add: distinct_map)
  then have "distinct (map c_id ?cs)"
    by (simp add: distinct_map)
  moreover have "sorted (map c_id ?cs)"
    by (rule sorted_sort_key)
  ultimately have "sorted_wrt (<) (map c_id ?cs)"
    by (simp add: strict_sorted_iff)
  then show ?thesis
    by (intro exI [of _ ?cs]) (simp add: export_rows_def)
qed

lemma loop_body_ids:
  assumes "loop_body e i row (ok, errors, con) = Inr (ok', errors', con')"
    and "distinct (map c_id (customers con))"
  shows "distinct (map c_id (customers con'))"
proof -
  have n: "Suc (fold max (map c_id (customers con)) (seq con)) \<notin> set (map c_id (customers con))"
  proof
    assume "Suc (fold max (map c_id (customers con)) (seq con)) \<in> set (map c_id (customers con))"
    with fold_max_ge [of "seq con" "map c_id (customers con)"]
    have "Suc (fold max (map c_id (customers con)) (seq con)) \<le>
          fold max (map c_id (customers con)) (seq con)"
      by blast
    then show False
      by simp
  qed
  from assms n show ?thesis
    by (auto simp: loop_body_def execute_insert_def Let_def
             split: option.splits if_splits sum.splits sqlite_error.splits)
qed

lemma for_rows_ids:
  "for_rows e f i rs st = Inr st' \<Longrightarrow>
   distinct (map c_id (customers (snd (snd st)))) \<Longrightarrow>
   distinct (map c_id (customers (snd (snd st'))))"
proof (induction e f i rs st rule: for_rows.induct)
  case (1 e fieldnames i st)
  then show ?case
    by simp
next
  case (2 e fieldnames i r rs st)
  show ?case
  proof (cases "r = []")
    case True
    with 2 show ?thesis
      by simp
  next
    case False
    with "2.prems" obtain st1 where
      s: "loop_body e i (dict_row fieldnames r) st = Inr st1"
      and t: "for_rows e fieldnames (Suc i) rs st1 = Inr st'"
      by (auto split: sum.splits)
    from s "2.prems"(2) have "distinct (map c_id (customers (snd (snd st1))))"
      by (cases st; cases st1) (auto dest: loop_body_ids)
    with "2.IH"(2) [OF False s t] show ?thesis
      by simp
  qed
qed

lemma import_ids:
  assumes "distinct (map c_id (customers con))"
  shows "distinct (map c_id (customers (snd (import_csv_stream e recs con))))"
proof (cases "for_rows e (hd recs) 2 (tl recs) (0, [], con)")
  case (Inl x)
  with assms show ?thesis
    by (simp add: import_csv_stream_def)
next
  case (Inr st)
  from for_rows_ids [OF Inr] assms
  have "distinct (map c_id (customers (snd (snd st))))"
    by simp
  with Inr assms show ?thesis
    by (cases st) (simp add: import_csv_stream_def)
qed

subsection \<open>Outcomes of a call that returns\<close>

lemma loop_body_Inr:
  assumes "loop_body e i row (ok, errors, con) = Inr st"
  shows "(\<exists>m. st = (ok, errors @ [\<lparr>err_row = i, err_msg = m\<rparr>], con)) \<or>
         (\<exists>con'. st = (Suc ok, errors, con') \<and> passes_validation e row \<and>
                 execute_insert False con (insert_values e i row) = Inr con')"
proof (cases "passes_validation e row")
  case False
  from loop_body_invalid [OF this, of i ok errors con] assms show ?thesis
    by auto
next
  case True
  obtain n m a t where v: "insert_values e i row = (n, m, a, t)"
    by (cases "insert_values e i row") auto
  from assms True show ?thesis
    by (auto simp: loop_body_valid v execute_insert_cases split: if_splits)
qed

lemma for_rows_Inr:
  "for_rows e f i rs (ok, errors, con) = Inr (ok', errors', con') \<Longrightarrow>
   \<exists>new added.
     errors' = errors @ new \<and> ok' + length new = ok + length (data_rows rs) \<and>
     (\<forall>x\<in>set new. i \<le> err_row x \<and> err_row x < i + length (data_rows rs)) \<and>
     export_rows con' = export_rows con @ added \<and> ok' = ok + length added"
proof (induction rs arbitrary: i ok errors con)
  case Nil
  then show ?case
    by (simp add: data_rows_def)
next
  case (Cons r rs)
  show ?case
  proof (cases "r = []")
    case True
    with Cons show ?thesis
      by (simp add: data_rows_def)
  next
    case False
    then have d: "length (data_rows (r # rs)) = Suc (length (data_rows rs))"
      by (simp add: data_rows_def)
    from False Cons.prems obtain st1 where
      s: "loop_body e i (dict_row f r) (ok, errors, con) = Inr st1"
      and t: "for_rows e f (Suc i) rs st1 = Inr (ok', errors', con')"
      by (auto split: sum.splits)
    from loop_body_Inr [OF s] show ?thesis
    proof
      assume "\<exists>m. st1 = (ok, errors @ [\<lparr>err_row = i, err_msg = m\<rparr>], con)"
      then obtain m where st1: "st1 = (ok, errors @ [\<lparr>err_row = i, err_msg = m\<rparr>], con)"
        by blast
      from Cons.IH [OF t [unfolded st1]] obtain new added where
        n: "errors' = (errors @ [\<lparr>err_row = i, err_msg = m\<rparr>]) @ new"
        "ok' + length new = ok + length (data_rows rs)"
        "\<forall>x\<in>set new. Suc i \<le> err_row x \<and> err_row x < Suc i + length (data_rows rs)"
        "export_rows con' = export_rows con @ added" "ok' = ok + length added"
        by blast
      have "errors' = errors @ (\<lparr>err_row = i, err_msg = m\<rparr> # new) \<and>
          ok' + length (\<lparr>err_row = i, err_msg = m\<rparr> # new) = ok + length (data_rows (r # rs)) \<and>
          (\<forall>x\<in>set (\<lparr>err_row = i, err_msg = m\<rparr> # new).
              i \<le> err_row x \<and> err_row x < i + length (data_rows (r # rs))) \<and>
          export_rows con' = export_rows con @ added \<and> ok' = ok + length added"
        using n d by auto
      then show ?thesis
        by blast
    next
      assume "\<exists>con1. st1 = (Suc ok, errors, con1) \<and> passes_validation e (dict_row f r) \<and>
        execute_insert False con (insert_values e i (dict_row f r)) = Inr con1"
      then obtain con1 where st1: "st1 = (Suc ok, errors, con1)"
        and x: "execute_insert False con (insert_values e i (dict_row f r)) = Inr con1"
        by blast
      obtain n m a ts where v: "insert_values e i (dict_row f r) = (n, m, a, ts)"
        by (cases "insert_values e i (dict_row f r)") auto
      from export_rows_insert [OF x [unfolded v]]
      have e1: "export_rows con1 = export_rows con @ [(n, m, a, ts)]" .
      from Cons.IH [OF t [unfolded st1]] obtain new added where
        n: "errors' = errors @ new"
        "ok' + length new = Suc ok + length (data_rows rs)"
        "\<forall>x\<in>set new. Suc i \<le> err_row x \<and> err_row x < Suc i + length (data_rows rs)"
        "export_rows con' = export_rows con1 @ added" "ok' = Suc ok + length added"
        by blast
      have "errors' = errors @ new \<and>
          ok' + length new = ok + length (data_rows (r # rs)) \<and>
          (\<forall>x\<in>set new. i \<le> err_row x \<and> err_row x < i + length (data_rows (r # rs))) \<and>
          export_rows con' = export_rows con @ ((n, m, a, ts) # added) \<and>
          ok' = ok + length ((n, m, a, ts) # added)"
        using n d e1 by auto
      then show ?thesis
        by blast
    qed
  qed
qed

subsection \<open>Round trip\<close>

text \<open>
  C8. A data row \<open>r\<close> of a call that returns a summary without a failure under the number
  of \<open>r\<close> has been inserted, and it is in the listing of \<^verbatim>\<open>export\<close> after the call: that
  listing is the listing before the call, then the rows inserted before \<open>r\<close> (as many as
  there are data rows before \<open>r\<close> without a failure), then the row of \<open>r\<close>, then the rows
  inserted after it. The row of \<open>r\<close> holds the trimmed name, the trimmed and lower-cased
  email, the integer that \<^verbatim>\<open>int\<close> reads from the trimmed age, and the time of the insert.
  The listing is in the order of the identifiers, which are distinct and grow with every
  insert, so older rows come first. The time of the insert is the ISO-8601 form
  \<^verbatim>\<open>YYYY-MM-DDTHH:MM:SSZ\<close> of the clock's value, to the second.
\<close>

theorem round_trip:
  "(fst (import_csv_stream e (h # pre @ r # post) con) = Inr (ok, errors) \<and> r \<noteq> [] \<and>
    (\<forall>x\<in>set errors. err_row x \<noteq> 2 + length (data_rows pre)) \<longrightarrow>
      (\<exists>age before after.
         py_int e (strip (get_or_empty (dict_row h r) (u ''age''))) = Some age \<and>
         length before +
           length (filter (\<lambda>x. err_row x < 2 + length (data_rows pre)) errors) =
           length (data_rows pre) \<and>
         export_rows (snd (import_csv_stream e (h # pre @ r # post) con)) =
           export_rows con @ before @
           [(strip (get_or_empty (dict_row h r) (u ''name'')),
             lower e (strip (get_or_empty (dict_row h r) (u ''email''))),
             age,
             created_at_now e (2 + length (data_rows pre)))] @ after)) \<and>
   (distinct (map c_id (customers con)) \<longrightarrow>
      (\<exists>cs. export_rows (snd (import_csv_stream e recs con)) =
              map (\<lambda>c. (c_name c, c_email c, c_age c, c_created_at c)) cs \<and>
            set cs = set (customers (snd (import_csv_stream e recs con))) \<and>
            sorted_wrt (<) (map c_id cs))) \<and>
   (datetime_ok (utcnow e i) \<longrightarrow> iso8601_utc_seconds (created_at_now e i) (utcnow e i))"
proof (intro conjI impI)
  let ?j = "2 + length (data_rows pre)"
  let ?row = "dict_row h r"
  assume a: "fst (import_csv_stream e (h # pre @ r # post) con) = Inr (ok, errors) \<and> r \<noteq> [] \<and>
    (\<forall>x\<in>set errors. err_row x \<noteq> ?j)"
  then have r: "r \<noteq> []" and nofail: "\<forall>x\<in>set errors. err_row x \<noteq> ?j"
    by simp_all
  from a obtain con' where
    f: "for_rows e h 2 (pre @ r # post) (0, [], con) = Inr (ok, errors, con')"
    and i: "snd (import_csv_stream e (h # pre @ r # post) con) = con'"
    by (auto simp: import_csv_stream_def split: if_splits sum.splits)
  from f have ap: "(case for_rows e h 2 pre (0, [], con) of
        Inl x \<Rightarrow> Inl x
      | Inr st' \<Rightarrow> for_rows e h ?j (r # post) st') = Inr (ok, errors, con')"
    by (simp only: for_rows_append)
  obtain st1 where p1: "for_rows e h 2 pre (0, [], con) = Inr st1"
    and q1: "for_rows e h ?j (r # post) st1 = Inr (ok, errors, con')"
  proof (cases "for_rows e h 2 pre (0, [], con)")
    case (Inl x)
    with ap show ?thesis
      by (simp only: sum.case sum.distinct)
  next
    case (Inr st1)
    with ap that show ?thesis
      by (simp only: sum.case)
  qed
  obtain ok1 errors1 con1 where st1: "st1 = (ok1, errors1, con1)"
    by (cases st1) auto
  note p = p1 [unfolded st1] and q = q1 [unfolded st1]
  from q r obtain st2 where
    s: "loop_body e ?j ?row (ok1, errors1, con1) = Inr st2"
    and t: "for_rows e h (Suc ?j) post st2 = Inr (ok, errors, con')"
    by (auto split: sum.splits)
  from for_rows_Inr [OF p] obtain before where
    e1: "ok1 + length errors1 = length (data_rows pre)"
    and r1: "\<forall>x\<in>set errors1. err_row x < ?j"
    and b: "export_rows con1 = export_rows con @ before" "ok1 = length before"
    by auto
  from loop_body_Inr [OF s]
  have "\<exists>con2. st2 = (Suc ok1, errors1, con2) \<and> passes_validation e ?row \<and>
      execute_insert False con1 (insert_values e ?j ?row) = Inr con2"
  proof
    assume "\<exists>m. st2 = (ok1, errors1 @ [\<lparr>err_row = ?j, err_msg = m\<rparr>], con1)"
    then obtain m where st2: "st2 = (ok1, errors1 @ [\<lparr>err_row = ?j, err_msg = m\<rparr>], con1)"
      by blast
    from for_rows_Inr [OF t [unfolded st2]]
    have "\<lparr>err_row = ?j, err_msg = m\<rparr> \<in> set errors"
      by auto
    with nofail show ?thesis
      by auto
  qed
  then obtain con2 where st2: "st2 = (Suc ok1, errors1, con2)"
    and v: "passes_validation e ?row"
    and x: "execute_insert False con1 (insert_values e ?j ?row) = Inr con2"
    by blast
  from for_rows_Inr [OF t [unfolded st2]] obtain new2 after where
    e2: "errors = errors1 @ new2"
    and r2: "\<forall>x\<in>set new2. Suc ?j \<le> err_row x"
    and c: "export_rows con' = export_rows con2 @ after"
    by auto
  have "filter (\<lambda>x. err_row x < ?j) errors1 = errors1"
    using r1 by (simp add: filter_id_conv)
  moreover have "filter (\<lambda>x. err_row x < ?j) new2 = []"
    using r2 by (auto simp: filter_empty_conv)
  ultimately have fl: "length (filter (\<lambda>x. err_row x < ?j) errors) = length errors1"
    by (simp add: e2)
  from v obtain age where
    age: "py_int e (strip (get_or_empty ?row (u ''age''))) = Some age"
    by (auto simp: passes_validation_def split: option.splits)
  have iv: "insert_values e ?j ?row =
      (strip (get_or_empty ?row (u ''name'')),
       lower e (strip (get_or_empty ?row (u ''email''))), age, created_at_now e ?j)"
    by (simp add: insert_values_def age)
  from export_rows_insert [OF x [unfolded iv]]
  have "export_rows con2 = export_rows con1 @
      [(strip (get_or_empty ?row (u ''name'')),
        lower e (strip (get_or_empty ?row (u ''email''))), age, created_at_now e ?j)]" .
  with b c i age fl e1 show "\<exists>age before after.
         py_int e (strip (get_or_empty ?row (u ''age''))) = Some age \<and>
         length before + length (filter (\<lambda>x. err_row x < ?j) errors) =
           length (data_rows pre) \<and>
         export_rows (snd (import_csv_stream e (h # pre @ r # post) con)) =
           export_rows con @ before @
           [(strip (get_or_empty ?row (u ''name'')),
             lower e (strip (get_or_empty ?row (u ''email''))),
             age,
             created_at_now e ?j)] @ after"
    by (intro exI [of _ age] exI [of _ before] exI [of _ after]) simp
next
  assume "distinct (map c_id (customers con))"
  then have "distinct (map c_id (customers (snd (import_csv_stream e recs con))))"
    by (rule import_ids)
  then show "\<exists>cs. export_rows (snd (import_csv_stream e recs con)) =
              map (\<lambda>c. (c_name c, c_email c, c_age c, c_created_at c)) cs \<and>
            set cs = set (customers (snd (import_csv_stream e recs con))) \<and>
            sorted_wrt (<) (map c_id cs)"
    by (rule export_rows_ordered)
next
  assume "datetime_ok (utcnow e i)"
  then show "iso8601_utc_seconds (created_at_now e i) (utcnow e i)"
    by (simp add: created_at_now_def isoformat_shape)
qed

theorem round_trip_witness:
  "(\<exists>age before after.
      py_int env0 (strip (get_or_empty (dict_row header0 dan) (u ''age''))) = Some age \<and>
      length before + 1 = 2 \<and>
      export_rows (snd (import_csv_stream env0 [header0, bob, cara, [], dan, alice] db_alice)) =
        export_rows db_alice @ before @
        [(strip (get_or_empty (dict_row header0 dan) (u ''name'')),
          lower env0 (strip (get_or_empty (dict_row header0 dan) (u ''email''))),
          age,
          created_at_now env0 4)] @ after) \<and>
   (\<exists>cs. export_rows (snd (import_csv_stream env0 [header0, bob, cara, [], dan, alice] db_alice)) =
           map (\<lambda>c. (c_name c, c_email c, c_age c, c_created_at c)) cs \<and>
         set cs =
           set (customers
             (snd (import_csv_stream env0 [header0, bob, cara, [], dan, alice] db_alice))) \<and>
         sorted_wrt (<) (map c_id cs)) \<and>
   iso8601_utc_seconds (created_at_now env0 4) (utcnow env0 4)"
proof -
  have h1: "fst (import_csv_stream env0 (header0 # [bob, cara, []] @ dan # [alice]) db_alice) =
      Inr (2, [\<lparr>err_row = 3, err_msg = InvalidAge\<rparr>, \<lparr>err_row = 5, err_msg = DuplicateEmail\<rparr>]) \<and>
    dan \<noteq> [] \<and>
    (\<forall>x\<in>set [\<lparr>err_row = 3, err_msg = InvalidAge\<rparr>, \<lparr>err_row = 5, err_msg = DuplicateEmail\<rparr>].
        err_row x \<noteq> 2 + length (data_rows [bob, cara, []]))"
    by (simp add: alice_def bob_def cara_def dan_def db_alice_def data_rows_def import_defs
        str_defs row_defs re_defs int_defs loop_defs time_defs)
  have h2: "distinct (map c_id (customers db_alice))"
    by (simp add: db_alice_def)
  have h3: "datetime_ok (utcnow env0 4)"
    by (simp add: env0_def time0_def datetime_ok_def)
  have k1: "2 + length (data_rows [bob, cara, []]) = 4"
    by (simp add: data_rows_def bob_def cara_def)
  have k2: "length (filter (\<lambda>x. err_row x < 4)
      [\<lparr>err_row = 3, err_msg = InvalidAge\<rparr>, \<lparr>err_row = 5, err_msg = DuplicateEmail\<rparr>]) = 1"
    by simp
  have k3: "length (data_rows [bob, cara, []]) = 2" "2 + 2 = (4::nat)"
    by (simp_all add: data_rows_def bob_def cara_def)
  have k4: "header0 # [bob, cara, []] @ dan # [alice] = [header0, bob, cara, [], dan, alice]"
    by simp
  note v1 = round_trip [where e = env0 and h = header0 and pre = "[bob, cara, []]" and r = dan
    and post = "[alice]" and con = db_alice and ok = 2
    and errors = "[\<lparr>err_row = 3, err_msg = InvalidAge\<rparr>,
                   \<lparr>err_row = 5, err_msg = DuplicateEmail\<rparr>]",
    THEN conjunct1, rule_format, OF h1]
  note v2 = round_trip [where e = env0 and con = db_alice
    and recs = "[header0, bob, cara, [], dan, alice]",
    THEN conjunct2, THEN conjunct1, rule_format, OF h2]
  note v3 = round_trip [where e = env0 and i = 4,
    THEN conjunct2, THEN conjunct2, rule_format, OF h3]
  from v1 have w1: "\<exists>age before after.
      py_int env0 (strip (get_or_empty (dict_row header0 dan) (u ''age''))) = Some age \<and>
      length before + 1 = 2 \<and>
      export_rows (snd (import_csv_stream env0 [header0, bob, cara, [], dan, alice] db_alice)) =
        export_rows db_alice @ before @
        [(strip (get_or_empty (dict_row header0 dan) (u ''name'')),
          lower env0 (strip (get_or_empty (dict_row header0 dan) (u ''email''))),
          age,
          created_at_now env0 4)] @ after"
    unfolding k3 k2 k4 .
  from w1 v2 v3 show ?thesis
    by blast
qed


end
